theory Spec2Isabelle
  imports Main "HOL-Library.Multiset" "HOL-Library.Char_ord" "HOL-Library.List_Lexorder" "HOL-Library.AList"
begin

section \<open>Activities of a feed service and their JSON wire form\<close>

text \<open>
  The development follows \<^verbatim>\<open>activity.go\<close>: \<^verbatim>\<open>MarshalJSON\<close> turns an Activity into a
  JSON object, \<^verbatim>\<open>UnmarshalJSON\<close> reads one back. Go strings are byte sequences and are
  modelled by \<^typ>\<open>string\<close>, whose characters are bytes.
\<close>

subsection \<open>Errors\<close>

text \<open>
  The errors returned by the library calls of the source, and the one run-time panic its
  slice accesses can raise. A panic is an \<open>Inl\<close> like a returned error, under its own
  constructor.
\<close>

datatype error =
    SyntaxError             \<comment> \<open>\<^verbatim>\<open>encoding/json\<close>: the bytes are not JSON\<close>
  | UnmarshalTypeError      \<comment> \<open>\<^verbatim>\<open>encoding/json\<close>: a JSON value does not fit the Go target\<close>
  | MarshalerError          \<comment> \<open>\<^verbatim>\<open>encoding/json\<close>: a raw message to embed is not JSON\<close>
  | ParseError              \<comment> \<open>\<^verbatim>\<open>time.Parse\<close>\<close>
  | IndexOutOfRange         \<comment> \<open>run-time panic of a slice access\<close>

text \<open>The slice access \<^verbatim>\<open>xs[i]\<close>, which panics out of range.\<close>

definition index :: "'a list \<Rightarrow> nat \<Rightarrow> error + 'a" where
  "index xs i = (if i < length xs then Inr (xs ! i) else Inl IndexOutOfRange)"

subsection \<open>The two regular expressions\<close>

text \<open>
  The source matches with \<^verbatim>\<open>regexp.MatchString\<close> against two constant patterns,
  \<^verbatim>\<open>^\w+:\w+$\<close> and \<^verbatim>\<open>^\w+:\w+ .*?$\<close>. Both are a sequence of character classes, each
  taken once, one or more times (\<^verbatim>\<open>+\<close>) or any number of times (\<^verbatim>\<open>.*?\<close>; laziness
  changes which match is found, not whether there is one), between \<^verbatim>\<open>^\<close> and \<^verbatim>\<open>$\<close>, which
  without the \<^verbatim>\<open>m\<close> flag stand for the beginning and the end of the text. A pattern of this
  fragment is a list of items; both constants compile, so \<^verbatim>\<open>MatchString\<close> returns no error.
\<close>

datatype quantifier = Once | OneOrMore | ZeroOrMore

type_synonym regexp = "((char \<Rightarrow> bool) \<times> quantifier) list"

text \<open>\<^verbatim>\<open>\w\<close> is the ASCII class \<^verbatim>\<open>[0-9A-Za-z_]\<close>; \<^verbatim>\<open>.\<close> is every character but the line feed.\<close>

definition word_char :: "char \<Rightarrow> bool" where
  "word_char c \<longleftrightarrow>
     (let n = (of_char c :: nat)
      in (48 \<le> n \<and> n \<le> 57) \<or> (65 \<le> n \<and> n \<le> 90) \<or> n = 95 \<or> (97 \<le> n \<and> n \<le> 122))"

definition any_char :: "char \<Rightarrow> bool" where
  "any_char c \<longleftrightarrow> c \<noteq> CHR 0x0A"

definition lit :: "char \<Rightarrow> char \<Rightarrow> bool" where
  "lit a c \<longleftrightarrow> c = a"

text \<open>
  Matching a whole text against a pattern, by backtracking over the repetitions. An item
  repeated any number of times either stops or takes one more character of its class.
\<close>

fun MatchString :: "regexp \<Rightarrow> string \<Rightarrow> bool" where
  "MatchString [] s = (s = [])"
| "MatchString ((cls, Once) # r) s =
     (case s of [] \<Rightarrow> False | c # s' \<Rightarrow> cls c \<and> MatchString r s')"
| "MatchString ((cls, OneOrMore) # r) s =
     (case s of [] \<Rightarrow> False | c # s' \<Rightarrow> cls c \<and> MatchString ((cls, ZeroOrMore) # r) s')"
| "MatchString ((cls, ZeroOrMore) # r) s =
     (MatchString r s \<or>
      (case s of [] \<Rightarrow> False | c # s' \<Rightarrow> cls c \<and> MatchString ((cls, ZeroOrMore) # r) s'))"

text \<open>\<^verbatim>\<open>^\w+:\w+$\<close>\<close>

definition feed_re :: regexp where
  "feed_re = [(word_char, OneOrMore), (lit (CHR '':''), Once), (word_char, OneOrMore)]"

text \<open>\<^verbatim>\<open>^\w+:\w+ .*?$\<close>\<close>

definition feed_with_token_re :: regexp where
  "feed_with_token_re =
     [(word_char, OneOrMore), (lit (CHR '':''), Once), (word_char, OneOrMore),
      (lit (CHR '' ''), Once), (any_char, ZeroOrMore)]"

subsection \<open>Splitting strings\<close>

text \<open>
  \<^verbatim>\<open>strings.Split(s, sep)\<close> for a separator of one byte, the only kind the source passes
  (\<^verbatim>\<open>":"\<close> and \<^verbatim>\<open>" "\<close>): the pieces of \<open>s\<close> between the separators, one more than there are
  separators. \<open>split_from\<close> carries the piece read so far, reversed.
\<close>

fun split_from :: "char \<Rightarrow> string \<Rightarrow> string \<Rightarrow> string list" where
  "split_from sep acc [] = [rev acc]"
| "split_from sep acc (c # s) =
     (if c = sep then rev acc # split_from sep [] s else split_from sep (c # acc) s)"

definition Split :: "string \<Rightarrow> char \<Rightarrow> string list" where
  "Split s sep = split_from sep [] s"

subsection \<open>Feed references\<close>

text \<open>
  \<^verbatim>\<open>GeneralFeed\<close> is the struct the two matchers build; the source names its three fields.
\<close>

record GeneralFeed =
  FeedSlug :: string
  UserID :: string
  token :: string

text \<open>
  \<^verbatim>\<open>matchFeed\<close> and \<^verbatim>\<open>matchFeedWithToken\<close> return a pointer, \<^verbatim>\<open>nil\<close> when the pattern does
  not match: \<open>Inr None\<close> here. The slice accesses are in the order of the source.
\<close>

definition matchFeedWithToken :: "string \<Rightarrow> error + GeneralFeed option" where
  "matchFeedWithToken to =
     (if MatchString feed_with_token_re to then
        (let firstSplit = Split to (CHR '':'') in
         case index firstSplit 1 of Inl e \<Rightarrow> Inl e
         | Inr seg \<Rightarrow>
             (let secondSplit = Split seg (CHR '' '') in
              case index firstSplit 0 of Inl e \<Rightarrow> Inl e
              | Inr slug \<Rightarrow>
                  (case index secondSplit 0 of Inl e \<Rightarrow> Inl e
                   | Inr uid \<Rightarrow>
                       (case index secondSplit 1 of Inl e \<Rightarrow> Inl e
                        | Inr tok \<Rightarrow>
                            Inr (Some \<lparr>FeedSlug = slug, UserID = uid, token = tok\<rparr>)))))
      else Inr None)"

definition matchFeed :: "string \<Rightarrow> error + GeneralFeed option" where
  "matchFeed to =
     (if MatchString feed_re to then
        (let firstSplit = Split to (CHR '':'') in
         case index firstSplit 0 of Inl e \<Rightarrow> Inl e
         | Inr slug \<Rightarrow>
             (case index firstSplit 1 of Inl e \<Rightarrow> Inl e
              | Inr uid \<Rightarrow> Inr (Some \<lparr>FeedSlug = slug, UserID = uid, token = []\<rparr>)))
      else Inr None)"

subsection \<open>JSON values and the decoders of \<^verbatim>\<open>encoding/json\<close>\<close>

text \<open>
  A JSON value, as a tree. An object keeps its members in the order of the text, repeated
  names included. A number is kept as its literal; its conversion to \<^verbatim>\<open>float64\<close> is not
  modelled.
\<close>

datatype json =
    JNull
  | JBool bool
  | JNumber string
  | JString string
  | JArray "json list"
  | JObject "(string \<times> json) list"

text \<open>
  A byte slice handed to \<^verbatim>\<open>encoding/json\<close> (the argument of \<^verbatim>\<open>UnmarshalJSON\<close>, a
  \<^verbatim>\<open>json.RawMessage\<close>) is modelled by what the parser makes of it: \<open>NotJSON\<close> when the
  bytes are not one well-formed JSON value, \<open>JSON v\<close> with the value they spell otherwise.
  White space and the spelling of literals are not represented; a string of the value is
  the string that the decoder reads from its literal.
\<close>

datatype bytes = NotJSON | JSON json

type_synonym RawMessage = bytes

text \<open>
  \<^verbatim>\<open>json.Unmarshal(data, &v)\<close> for the target types of the source, each target being a
  fresh variable there (the empty string, a nil slice, a nil interface). The result is the
  error, if any, and the value of the target afterwards. A \<^verbatim>\<open>null\<close> leaves the target as it
  is and is no error; a value of the wrong kind is an \<^verbatim>\<open>UnmarshalTypeError\<close> that leaves
  the target, or the element of the target it was meant for, at its zero value while the
  rest of an array is still decoded.
\<close>

fun Unmarshal_string :: "bytes \<Rightarrow> error option \<times> string" where
  "Unmarshal_string NotJSON = (Some SyntaxError, [])"
| "Unmarshal_string (JSON (JString s)) = (None, s)"
| "Unmarshal_string (JSON JNull) = (None, [])"
| "Unmarshal_string (JSON v) = (Some UnmarshalTypeError, [])"

text \<open>One element of a \<^verbatim>\<open>[]string\<close>: whether it fits, and the string stored.\<close>

fun string_elem :: "json \<Rightarrow> bool \<times> string" where
  "string_elem (JString s) = (True, s)"
| "string_elem JNull = (True, [])"
| "string_elem v = (False, [])"

fun Unmarshal_strings :: "bytes \<Rightarrow> error option \<times> string list" where
  "Unmarshal_strings NotJSON = (Some SyntaxError, [])"
| "Unmarshal_strings (JSON (JArray vs)) =
     (if list_all (\<lambda>v. fst (string_elem v)) vs then None else Some UnmarshalTypeError,
      map (\<lambda>v. snd (string_elem v)) vs)"
| "Unmarshal_strings (JSON JNull) = (None, [])"
| "Unmarshal_strings (JSON v) = (Some UnmarshalTypeError, [])"

text \<open>One element of a \<^verbatim>\<open>[][]string\<close>.\<close>

fun strings_elem :: "json \<Rightarrow> bool \<times> string list" where
  "strings_elem (JArray vs) =
     (list_all (\<lambda>v. fst (string_elem v)) vs, map (\<lambda>v. snd (string_elem v)) vs)"
| "strings_elem JNull = (True, [])"
| "strings_elem v = (False, [])"

fun Unmarshal_string_lists :: "bytes \<Rightarrow> error option \<times> string list list" where
  "Unmarshal_string_lists NotJSON = (Some SyntaxError, [])"
| "Unmarshal_string_lists (JSON (JArray vs)) =
     (if list_all (\<lambda>v. fst (strings_elem v)) vs then None else Some UnmarshalTypeError,
      map (\<lambda>v. snd (strings_elem v)) vs)"
| "Unmarshal_string_lists (JSON JNull) = (None, [])"
| "Unmarshal_string_lists (JSON v) = (Some UnmarshalTypeError, [])"

text \<open>
  Decoding into an \<^verbatim>\<open>interface{}\<close> gives the generic Go value: \<^verbatim>\<open>nil\<close>, a bool, a
  \<^verbatim>\<open>float64\<close>, a string, a \<^verbatim>\<open>[]interface{}\<close> or a \<^verbatim>\<open>map[string]interface{}\<close>. Such a
  value is represented by the JSON value that \<^verbatim>\<open>json.Marshal\<close> writes for it: a map by
  its entries in the order of their keys, each key once (of a repeated name the last value
  stays).
\<close>

primrec generic :: "json \<Rightarrow> json" where
  "generic JNull = JNull"
| "generic (JBool b) = JBool b"
| "generic (JNumber n) = JNumber n"
| "generic (JString s) = JString s"
| "generic (JArray vs) = JArray (map generic vs)"
| "generic (JObject kvs) =
     JObject (sort_key fst
       (fold (\<lambda>kv m. AList.update (fst kv) (snd kv) m) (map (map_prod id generic) kvs) []))"

fun Unmarshal_interface :: "bytes \<Rightarrow> error option \<times> json" where
  "Unmarshal_interface NotJSON = (Some SyntaxError, JNull)"
| "Unmarshal_interface (JSON v) = (None, generic v)"

subsection \<open>The raw payload of a field\<close>

text \<open>\<^verbatim>\<open>type payload struct { json.RawMessage }\<close>\<close>

datatype payload = Payload (RawMessage: RawMessage)

text \<open>
  The top-level call \<^verbatim>\<open>json.Unmarshal(b, &rawPayload)\<close> into a \<^verbatim>\<open>map[string]*payload\<close>.
  A \<^verbatim>\<open>*payload\<close> captures the raw text of its value, whatever its kind, through the
  \<^verbatim>\<open>UnmarshalJSON\<close> it inherits from \<^verbatim>\<open>json.RawMessage\<close>; a \<^verbatim>\<open>null\<close> member makes the pointer
  \<^verbatim>\<open>nil\<close> (\<open>None\<close>). A name that comes again replaces the earlier entry. The map is an
  association list with one entry for a key. A top-level \<^verbatim>\<open>null\<close> is accepted and leaves
  the map without entries.
\<close>

type_synonym rawPayload = "(string \<times> payload option) list"

definition raw_member :: "json \<Rightarrow> payload option" where
  "raw_member v = (if v = JNull then None else Some (Payload (JSON v)))"

fun Unmarshal_map :: "bytes \<Rightarrow> error option \<times> rawPayload" where
  "Unmarshal_map NotJSON = (Some SyntaxError, [])"
| "Unmarshal_map (JSON (JObject kvs)) =
     (None, fold (\<lambda>kv m. AList.update (fst kv) (raw_member (snd kv)) m) kvs [])"
| "Unmarshal_map (JSON JNull) = (None, [])"
| "Unmarshal_map (JSON v) = (Some UnmarshalTypeError, [])"

text \<open>\<^verbatim>\<open>func (p *payload) String() string\<close>: the error of the decoder is dropped.\<close>

definition String :: "payload \<Rightarrow> string" where
  "String p = (let (err, strValue) = Unmarshal_string (RawMessage p) in strValue)"

text \<open>
  \<^verbatim>\<open>func (p *payload) to1D() []string\<close>. When the first decoding fails, \<open>to1D\<close> keeps what
  that decoding stored, and the loop over \<open>to2D\<close> appends to it.
\<close>

fun to2D_loop :: "string list list \<Rightarrow> string list \<Rightarrow> string list" where
  "to2D_loop [] to1D = to1D"
| "to2D_loop (to # rest) to1D =
     (if length to = 2 then to2D_loop rest (to1D @ [to ! 0 @ '' '' @ to ! 1])
      else if length to = 1 then to2D_loop rest (to1D @ [to ! 0])
      else to2D_loop rest to1D)"

definition to1D :: "payload \<Rightarrow> string list" where
  "to1D p =
     (case Unmarshal_strings (RawMessage p) of
        (None, to1D) \<Rightarrow> to1D
      | (Some err, to1D) \<Rightarrow>
          (case Unmarshal_string_lists (RawMessage p) of
             (None, to2D) \<Rightarrow> to2D_loop to2D to1D
           | (Some err', to2D) \<Rightarrow> to1D))"

text \<open>
  \<^verbatim>\<open>func (p *payload) To() []Feed\<close>: both matchers are tried on every string, the one
  without token first.
\<close>

fun To_loop :: "string list \<Rightarrow> GeneralFeed list \<Rightarrow> error + GeneralFeed list" where
  "To_loop [] feed = Inr feed"
| "To_loop (to # rest) feed =
     (case matchFeed to of Inl e \<Rightarrow> Inl e
      | Inr m1 \<Rightarrow>
          (let feed1 = (case m1 of None \<Rightarrow> feed | Some g \<Rightarrow> feed @ [g]) in
           case matchFeedWithToken to of Inl e \<Rightarrow> Inl e
           | Inr m2 \<Rightarrow>
               (let feed2 = (case m2 of None \<Rightarrow> feed1 | Some g \<Rightarrow> feed1 @ [g]) in
                To_loop rest feed2)))"

definition To_of :: "payload \<Rightarrow> error + GeneralFeed list" where
  "To_of p = To_loop (to1D p) []"

subsection \<open>Time stamps in the layout of the wire\<close>

text \<open>
  A \<^verbatim>\<open>time.Time\<close> is modelled by its civil reading in its own location, which is what
  \<^verbatim>\<open>Format\<close> prints and \<^verbatim>\<open>Parse\<close> builds. The layout of the source,
  \<^verbatim>\<open>2006-01-02T15:04:05.999999\<close>, names no zone: \<^verbatim>\<open>Format\<close> drops the location and
  \<^verbatim>\<open>Parse\<close> returns a time in UTC. \<open>Format\<close> and \<open>Parse\<close> below are the two library
  functions at this one layout.
\<close>

datatype Location = UTC | Local | FixedZone string int

record Time =
  Year :: int
  Month :: nat
  Day :: nat
  Hour :: nat
  Minute :: nat
  Second :: nat
  Nanosecond :: nat
  Loc :: Location

definition digit :: "nat \<Rightarrow> char" where
  "digit n = char_of (48 + n)"

fun decimal :: "nat \<Rightarrow> string" where
  "decimal n = (if n < 10 then [digit n] else decimal (n div 10) @ [digit (n mod 10)])"

declare decimal.simps [simp del]

text \<open>\<^verbatim>\<open>appendInt\<close>: a sign for a negative number, then the digits with zeros up to the width.\<close>

definition appendInt :: "int \<Rightarrow> nat \<Rightarrow> string" where
  "appendInt x width =
     (let ds = decimal (nat \<bar>x\<bar>)
      in (if x < 0 then ''-'' else []) @ replicate (width - length ds) (CHR ''0'') @ ds)"

text \<open>
  \<^verbatim>\<open>.999999\<close>: the nanoseconds written with nine digits and cut to six, the zeros at the
  end removed, and the point with them when nothing is left.
\<close>

definition appendNano :: "nat \<Rightarrow> string" where
  "appendNano nanosec =
     (let frac = rev (dropWhile (\<lambda>c. c = CHR ''0'') (rev (take 6 (appendInt (int nanosec) 9))))
      in if frac = [] then [] else CHR ''.'' # frac)"

definition Format :: "Time \<Rightarrow> string" where
  "Format t =
     appendInt (Year t) 4 @ ''-'' @ appendInt (int (Month t)) 2 @ ''-'' @
     appendInt (int (Day t)) 2 @ ''T'' @ appendInt (int (Hour t)) 2 @ '':'' @
     appendInt (int (Minute t)) 2 @ '':'' @ appendInt (int (Second t)) 2 @
     appendNano (Nanosecond t)"

definition isDigit :: "char \<Rightarrow> bool" where
  "isDigit c \<longleftrightarrow> 48 \<le> (of_char c :: nat) \<and> (of_char c :: nat) \<le> 57"

definition digit_val :: "char \<Rightarrow> nat" where
  "digit_val c = of_char c - 48"

definition atoi :: "string \<Rightarrow> nat" where
  "atoi ds = foldl (\<lambda>n c. 10 * n + digit_val c) 0 ds"

text \<open>\<^verbatim>\<open>getnum(s, fixed)\<close>: a number of two digits, or of one digit when \<open>fixed\<close> is off.\<close>

fun getnum :: "string \<Rightarrow> bool \<Rightarrow> (nat \<times> string) option" where
  "getnum [] fixed = None"
| "getnum [c] fixed = (if isDigit c \<and> \<not> fixed then Some (digit_val c, []) else None)"
| "getnum (c # d # r) fixed =
     (if \<not> isDigit c then None
      else if \<not> isDigit d then (if fixed then None else Some (digit_val c, d # r))
      else Some (10 * digit_val c + digit_val d, r))"

text \<open>The year of the layout: four characters, all digits.\<close>

fun long_year :: "string \<Rightarrow> (nat \<times> string) option" where
  "long_year (a # b # c # d # r) =
     (if isDigit a \<and> isDigit b \<and> isDigit c \<and> isDigit d then Some (atoi [a, b, c, d], r)
      else None)"
| "long_year s = None"

text \<open>A literal character of the layout.\<close>

fun skip :: "string \<Rightarrow> char \<Rightarrow> string option" where
  "skip [] p = None"
| "skip (c # r) p = (if c = p then Some r else None)"

text \<open>
  The fraction of the second: left out when the text does not go on with a point (or a
  comma) and a digit; otherwise all the digits that follow are taken and the first nine
  count.
\<close>

fun frac_second :: "string \<Rightarrow> nat \<times> string" where
  "frac_second (p # d # r) =
     (if (p = CHR ''.'' \<or> p = CHR '','') \<and> isDigit d then
        (let ds = take 9 (takeWhile isDigit (d # r))
         in (atoi ds * 10 ^ (9 - length ds), dropWhile isDigit (d # r)))
      else (0, p # d # r))"
| "frac_second s = (0, s)"

definition isLeap :: "int \<Rightarrow> bool" where
  "isLeap y \<longleftrightarrow> y mod 4 = 0 \<and> (y mod 100 \<noteq> 0 \<or> y mod 400 = 0)"

definition daysIn :: "nat \<Rightarrow> int \<Rightarrow> nat" where
  "daysIn m y =
     (if m = 2 then (if isLeap y then 29 else 28)
      else if m = 4 \<or> m = 6 \<or> m = 9 \<or> m = 11 then 30 else 31)"

text \<open>
  \<^verbatim>\<open>time.Parse(layout, value)\<close>: the fields in the order of the layout, each checked
  against its range as it is read, nothing left over at the end, and the day checked
  against the month last. \<open>parse_date\<close> reads \<^verbatim>\<open>2006-01-02\<close>, \<open>parse_clock\<close> reads
  \<^verbatim>\<open>15:04:05\<close>, where the hour may have one digit.
\<close>

definition parse_date :: "string \<Rightarrow> ((nat \<times> nat \<times> nat) \<times> string) option" where
  "parse_date s0 =
     Option.bind (long_year s0) (\<lambda>(y, s1).
     Option.bind (skip s1 (CHR ''-'')) (\<lambda>s2.
     Option.bind (getnum s2 True) (\<lambda>(mo, s3).
     if mo = 0 \<or> 12 < mo then None else
     Option.bind (skip s3 (CHR ''-'')) (\<lambda>s4.
     Option.bind (getnum s4 True) (\<lambda>(d, s5). Some ((y, mo, d), s5))))))"

definition parse_clock :: "string \<Rightarrow> ((nat \<times> nat \<times> nat) \<times> string) option" where
  "parse_clock s0 =
     Option.bind (getnum s0 False) (\<lambda>(h, s1).
     if 24 \<le> h then None else
     Option.bind (skip s1 (CHR '':'')) (\<lambda>s2.
     Option.bind (getnum s2 True) (\<lambda>(mi, s3).
     if 60 \<le> mi then None else
     Option.bind (skip s3 (CHR '':'')) (\<lambda>s4.
     Option.bind (getnum s4 True) (\<lambda>(sec, s5).
     if 60 \<le> sec then None else Some ((h, mi, sec), s5))))))"

definition Parse :: "string \<Rightarrow> error + Time" where
  "Parse s0 =
     (case parse_date s0 of
        None \<Rightarrow> Inl ParseError
      | Some ((y, mo, d), s1) \<Rightarrow>
          (case skip s1 (CHR ''T'') of
             None \<Rightarrow> Inl ParseError
           | Some s2 \<Rightarrow>
               (case parse_clock s2 of
                  None \<Rightarrow> Inl ParseError
                | Some ((h, mi, sec), s3) \<Rightarrow>
                    (let (nsec, s4) = frac_second s3
                     in if s4 \<noteq> [] then Inl ParseError
                        else if d < 1 \<or> daysIn mo (int y) < d then Inl ParseError
                        else Inr \<lparr>Year = int y, Month = mo, Day = d, Hour = h, Minute = mi,
                                   Second = sec, Nanosecond = nsec, Loc = UTC\<rparr>))))"

text \<open>
  \<^verbatim>\<open>func (p *payload) TimeStamp() *time.Time\<close>: \<^verbatim>\<open>nil\<close> when the value is not a string or
  the string does not parse.
\<close>

definition TimeStamp_of :: "payload \<Rightarrow> Time option" where
  "TimeStamp_of p =
     (case Unmarshal_string (RawMessage p) of
        (Some err, strValue) \<Rightarrow> None
      | (None, strValue) \<Rightarrow>
          (case Parse strValue of Inl err \<Rightarrow> None | Inr timeStamp \<Rightarrow> Some timeStamp))"

subsection \<open>Activities\<close>

text \<open>
  Modelled from the spec: \<^verbatim>\<open>FeedID\<close>, whose declaration is not in \<^verbatim>\<open>activity.go\<close>, is ``an
  opaque string identifier with a \<^verbatim>\<open>.Value()\<close> accessor''; the conversion
  \<^verbatim>\<open>FeedID(value.String())\<close> of the source shows it to be a string type.
\<close>

type_synonym FeedID = string

definition Value :: "FeedID \<Rightarrow> string" where
  "Value f = f"

text \<open>
  Modelled from the spec: the methods \<^verbatim>\<open>FeedID()\<close> and \<^verbatim>\<open>Token()\<close> of a feed are not in
  \<^verbatim>\<open>activity.go\<close>. By the spec a reference is written \<^verbatim>\<open>slug + ":" + userID\<close>, followed
  by a space and the token when there is one; the second part is in the source, the first
  is \<open>FeedID_of\<close>. The feeds of an Activity are the \<^verbatim>\<open>GeneralFeed\<close>s the decoder builds.
\<close>

definition FeedID_of :: "GeneralFeed \<Rightarrow> FeedID" where
  "FeedID_of feed = FeedSlug feed @ '':'' @ UserID feed"

definition Token :: "GeneralFeed \<Rightarrow> string" where
  "Token feed = token feed"

text \<open>
  The struct \<^verbatim>\<open>Activity\<close>. The two pointers are options. \<^verbatim>\<open>MetaData\<close> is a Go map, which
  may be \<^verbatim>\<open>nil\<close>: an optional association list with one entry for a key, read through
  \<^const>\<open>map_of\<close>. Its values are generic values, represented as \<^const>\<open>generic\<close> leaves them.
\<close>

record Activity =
  ID :: string
  Actor :: string
  Verb :: string
  Object :: string
  Target :: string
  Origin :: FeedID
  TimeStamp :: "Time option"
  ForeignID :: string
  Data :: "RawMessage option"
  MetaData :: "(string \<times> json) list option"
  To :: "GeneralFeed list"

text \<open>The zero value \<^verbatim>\<open>Activity{}\<close>, into which a caller decodes.\<close>

definition zero :: Activity where
  "zero = \<lparr>ID = [], Actor = [], Verb = [], Object = [], Target = [], Origin = [],
     TimeStamp = None, ForeignID = [], Data = None, MetaData = None, To = []\<rparr>"

subsection \<open>Decoding: \<^verbatim>\<open>UnmarshalJSON\<close>\<close>

text \<open>
  \<^verbatim>\<open>strings.ToLower\<close>, on the bytes of the string. The letters \<^verbatim>\<open>A\<close> to \<^verbatim>\<open>Z\<close> become
  \<^verbatim>\<open>a\<close> to \<^verbatim>\<open>z\<close>. Of the runes beyond ASCII, Go maps two to an ASCII letter: U+0130 (the
  bytes \<^verbatim>\<open>C4 B0\<close>) to \<^verbatim>\<open>i\<close> and U+212A (the bytes \<^verbatim>\<open>E2 84 AA\<close>) to \<^verbatim>\<open>k\<close>. Its other
  changes are to runes beyond ASCII whose lower case is beyond ASCII as well; those are
  left as they are, which no comparison with the ASCII names of the switch can tell.
\<close>

definition lower_byte :: "char \<Rightarrow> char" where
  "lower_byte c =
     (let n = (of_char c :: nat) in if 65 \<le> n \<and> n \<le> 90 then char_of (n + 32) else c)"

fun ToLower :: "string \<Rightarrow> string" where
  "ToLower [] = []"
| "ToLower (c # s) =
     (if c = CHR 0xC4 \<and> take 1 s = [CHR 0xB0] then CHR ''i'' # ToLower (drop 1 s)
      else if c = CHR 0xE2 \<and> take 2 s = [CHR 0x84, CHR 0xAA] then CHR ''k'' # ToLower (drop 2 s)
      else lower_byte c # ToLower s)"

text \<open>
  The body of the loop for an entry whose pointer is not \<^verbatim>\<open>nil\<close>: the \<^verbatim>\<open>switch\<close> on the
  lower-cased key, in the order of its cases. The state is the receiver and the local map
  \<open>metadata\<close>. Only the case \<^verbatim>\<open>"to"\<close> can stop with a panic.
\<close>

definition switch_key ::
  "string \<Rightarrow> payload \<Rightarrow> Activity \<times> (string \<times> json) list \<Rightarrow>
     error + Activity \<times> (string \<times> json) list" where
  "switch_key key value st =
     (let (a, metadata) = st; lowerKey = ToLower key in
      if lowerKey = ''id'' then Inr (a\<lparr>ID := String value\<rparr>, metadata)
      else if lowerKey = ''actor'' then Inr (a\<lparr>Actor := String value\<rparr>, metadata)
      else if lowerKey = ''verb'' then Inr (a\<lparr>Verb := String value\<rparr>, metadata)
      else if lowerKey = ''foreign_id'' then Inr (a\<lparr>ForeignID := String value\<rparr>, metadata)
      else if lowerKey = ''object'' then Inr (a\<lparr>Object := String value\<rparr>, metadata)
      else if lowerKey = ''origin'' then Inr (a\<lparr>Origin := String value\<rparr>, metadata)
      else if lowerKey = ''target'' then Inr (a\<lparr>Target := String value\<rparr>, metadata)
      else if lowerKey = ''time'' then Inr (a\<lparr>TimeStamp := TimeStamp_of value\<rparr>, metadata)
      else if lowerKey = ''data'' then Inr (a\<lparr>Data := Some (RawMessage value)\<rparr>, metadata)
      else if lowerKey = ''to'' then
        (case To_of value of
           Inl e \<Rightarrow> Inl e
         | Inr feed \<Rightarrow> Inr (a\<lparr>To := feed\<rparr>, metadata))
      else
        (let (err, v) = Unmarshal_interface (RawMessage value)
         in Inr (a, AList.update key v metadata)))"

text \<open>
  The loop \<^verbatim>\<open>for key, value := range rawPayload\<close> over the entries in the order of the
  visit; an entry with a \<^verbatim>\<open>nil\<close> pointer is passed over.
\<close>

fun range_loop ::
  "rawPayload \<Rightarrow> Activity \<times> (string \<times> json) list \<Rightarrow>
     error + Activity \<times> (string \<times> json) list" where
  "range_loop [] st = Inr st"
| "range_loop ((key, value) # rest) st =
     (case value of
        None \<Rightarrow> range_loop rest st
      | Some p \<Rightarrow>
          (case switch_key key p st of
             Inl e \<Rightarrow> Inl e
           | Inr st' \<Rightarrow> range_loop rest st'))"

text \<open>
  \<^verbatim>\<open>func (a *Activity) UnmarshalJSON(b []byte) (err error)\<close>. Go does not fix the order in
  which \<^verbatim>\<open>range\<close> visits a map: \<open>order\<close> is that order, a function that rearranges the
  entries of the map (\<open>mset (order m) = mset m\<close>). The result is the error returned (or the
  panic), or the receiver after the call.
\<close>

definition UnmarshalJSON ::
  "(rawPayload \<Rightarrow> rawPayload) \<Rightarrow> Activity \<Rightarrow> bytes \<Rightarrow> error + Activity" where
  "UnmarshalJSON order a b =
     (case Unmarshal_map b of
        (Some err, rawPayload) \<Rightarrow> Inl err
      | (None, rawPayload) \<Rightarrow>
          (case range_loop (order rawPayload) (a, []) of
             Inl e \<Rightarrow> Inl e
           | Inr (a', metadata) \<Rightarrow> Inr (a'\<lparr>MetaData := Some metadata\<rparr>)))"

text \<open>Decoding into a fresh Activity, as \<^verbatim>\<open>json.Unmarshal(b, &activity)\<close> does.\<close>

definition decode :: "(rawPayload \<Rightarrow> rawPayload) \<Rightarrow> bytes \<Rightarrow> error + Activity" where
  "decode order b = UnmarshalJSON order zero b"

subsection \<open>Encoding: \<^verbatim>\<open>MarshalJSON\<close>\<close>

text \<open>
  The values the source stores in its \<^verbatim>\<open>map[string]interface{}\<close>: a string, the slice of
  strings \<open>tos\<close>, the \<^verbatim>\<open>*json.RawMessage\<close> of \<open>Data\<close>, and the generic values copied from
  \<open>MetaData\<close>.
\<close>

datatype gvalue =
    GoString string
  | GoStrings "string list"
  | GoRawMessage RawMessage
  | GoGeneric json

text \<open>
  \<^verbatim>\<open>json.Marshal\<close> writes a string as valid UTF-8: a byte that does not begin a well-formed
  sequence is replaced by U+FFFD. \<open>rune_size\<close> is the length of the well-formed sequence
  at the head of a string, 0 when there is none.
\<close>

definition in_range :: "nat \<Rightarrow> nat \<Rightarrow> char \<Rightarrow> bool" where
  "in_range lo hi c \<longleftrightarrow> lo \<le> (of_char c :: nat) \<and> (of_char c :: nat) \<le> hi"

definition rune_size :: "string \<Rightarrow> nat" where
  "rune_size s =
     (case s of
        [] \<Rightarrow> 0
      | c0 # r \<Rightarrow>
          (if in_range 0x00 0x7F c0 then 1
           else if in_range 0xC2 0xDF c0 then
             (case r of c1 # _ \<Rightarrow> if in_range 0x80 0xBF c1 then 2 else 0 | _ \<Rightarrow> 0)
           else if in_range 0xE0 0xEF c0 then
             (case r of
                c1 # c2 # _ \<Rightarrow>
                  if in_range (if c0 = CHR 0xE0 then 0xA0 else 0x80)
                       (if c0 = CHR 0xED then 0x9F else 0xBF) c1 \<and> in_range 0x80 0xBF c2
                  then 3 else 0
              | _ \<Rightarrow> 0)
           else if in_range 0xF0 0xF4 c0 then
             (case r of
                c1 # c2 # c3 # _ \<Rightarrow>
                  if in_range (if c0 = CHR 0xF0 then 0x90 else 0x80)
                       (if c0 = CHR 0xF4 then 0x8F else 0xBF) c1 \<and> in_range 0x80 0xBF c2 \<and>
                     in_range 0x80 0xBF c3
                  then 4 else 0
              | _ \<Rightarrow> 0)
           else 0))"

fun valid_utf8 :: "string \<Rightarrow> string" where
  "valid_utf8 [] = []"
| "valid_utf8 (c # s) =
     (let n = rune_size (c # s) in
      if n = 0 then [CHR 0xEF, CHR 0xBF, CHR 0xBD] @ valid_utf8 s
      else take n (c # s) @ valid_utf8 (drop (n - 1) s))"

text \<open>
  \<^verbatim>\<open>json.Marshal\<close> of a generic value: every string in it is written as valid UTF-8, and
  a map is written with its entries in the order of their keys, each key as valid UTF-8.
\<close>

primrec marshal_generic :: "json \<Rightarrow> json" where
  "marshal_generic JNull = JNull"
| "marshal_generic (JBool b) = JBool b"
| "marshal_generic (JNumber n) = JNumber n"
| "marshal_generic (JString s) = JString (valid_utf8 s)"
| "marshal_generic (JArray vs) = JArray (map marshal_generic vs)"
| "marshal_generic (JObject kvs) =
     JObject (map (map_prod valid_utf8 id)
       (sort_key fst (map (map_prod id marshal_generic) kvs)))"

text \<open>
  \<^verbatim>\<open>json.Marshal\<close> of one value of the map. A raw message is embedded as it is and must be
  JSON; a \<^verbatim>\<open>nil\<close> one is written as \<^verbatim>\<open>null\<close> and stands with the raw messages that spell
  \<^verbatim>\<open>null\<close>.
\<close>

fun marshal_value :: "gvalue \<Rightarrow> error + json" where
  "marshal_value (GoString s) = Inr (JString (valid_utf8 s))"
| "marshal_value (GoStrings ss) = Inr (JArray (map (\<lambda>s. JString (valid_utf8 s)) ss))"
| "marshal_value (GoRawMessage NotJSON) = Inl MarshalerError"
| "marshal_value (GoRawMessage (JSON v)) = Inr v"
| "marshal_value (GoGeneric v) = Inr (marshal_generic v)"

fun marshal_members :: "(string \<times> gvalue) list \<Rightarrow> error + (string \<times> json) list" where
  "marshal_members [] = Inr []"
| "marshal_members ((k, v) # rest) =
     (case marshal_value v of
        Inl e \<Rightarrow> Inl e
      | Inr j \<Rightarrow>
          (case marshal_members rest of
             Inl e \<Rightarrow> Inl e
           | Inr js \<Rightarrow> Inr ((valid_utf8 k, j) # js)))"

text \<open>\<^verbatim>\<open>json.Marshal\<close> of the map: an object whose members are in the order of the keys.\<close>

definition Marshal :: "(string \<times> gvalue) list \<Rightarrow> error + json" where
  "Marshal payload =
     (case marshal_members (sort_key fst payload) of
        Inl e \<Rightarrow> Inl e
      | Inr members \<Rightarrow> Inr (JObject members))"

text \<open>The loop that renders the feeds of \<open>To\<close>.\<close>

fun tos_loop :: "GeneralFeed list \<Rightarrow> string list \<Rightarrow> string list" where
  "tos_loop [] tos = tos"
| "tos_loop (feed # rest) tos =
     (let to = Value (FeedID_of feed);
          to' = (if Token feed \<noteq> [] then to @ '' '' @ Token feed else to)
      in tos_loop rest (tos @ [to']))"

text \<open>
  \<^verbatim>\<open>func (a Activity) MarshalJSON() ([]byte, error)\<close>. \<open>now\<close> is what \<^verbatim>\<open>time.Now()\<close> returns
  at the call. The bytes returned are JSON; the result is the value they spell.
\<close>

definition MarshalJSON :: "Time \<Rightarrow> Activity \<Rightarrow> error + json" where
  "MarshalJSON now a =
     (let p0 = (case MetaData a of
                  None \<Rightarrow> []
                | Some md \<Rightarrow> fold (\<lambda>kv m. AList.update (fst kv) (GoGeneric (snd kv)) m) md []);
          p1 = AList.update ''actor'' (GoString (Actor a)) p0;
          p2 = AList.update ''verb'' (GoString (Verb a)) p1;
          p3 = AList.update ''object'' (GoString (Object a)) p2;
          p4 = AList.update ''origin'' (GoString (Value (Origin a))) p3;
          p5 = (if ID a \<noteq> [] then AList.update ''id'' (GoString (ID a)) p4 else p4);
          p6 = (if Target a \<noteq> [] then AList.update ''target'' (GoString (Target a)) p5 else p5);
          p7 = (case Data a of
                  None \<Rightarrow> p6
                | Some raw \<Rightarrow> AList.update ''data'' (GoRawMessage raw) p6);
          p8 = (if ForeignID a \<noteq> [] then AList.update ''foreign_id'' (GoString (ForeignID a)) p7
                else p7);
          p9 = (case TimeStamp a of
                  None \<Rightarrow> AList.update ''time'' (GoString (Format now)) p8
                | Some t \<Rightarrow> AList.update ''time'' (GoString (Format t)) p8);
          tos = tos_loop (To a) [];
          payload = (if length tos > 0 then AList.update ''to'' (GoStrings tos) p9 else p9)
      in Marshal payload)"

subsection \<open>Notions of the statements\<close>

text \<open>A word of the grammar of feed references: one or more word characters.\<close>

definition word :: "string \<Rightarrow> bool" where
  "word w \<longleftrightarrow> w \<noteq> [] \<and> list_all word_char w"

text \<open>The field names that \<^verbatim>\<open>UnmarshalJSON\<close> recognizes, as the cases of its switch.\<close>

definition recognized :: "string list" where
  "recognized =
     [''id'', ''actor'', ''verb'', ''foreign_id'', ''object'', ''origin'', ''target'', ''time'',
      ''data'', ''to'']"

text \<open>The feeds that \<^verbatim>\<open>To()\<close> returns.\<close>

definition feeds :: "payload \<Rightarrow> GeneralFeed list" where
  "feeds p = (case To_of p of Inl e \<Rightarrow> [] | Inr feed \<Rightarrow> feed)"

text \<open>
  The payload that a visit of the entries \<open>es\<close> stores last for the lower-cased key \<open>L\<close>:
  that of the last entry whose key is \<open>L\<close> in lower case and whose pointer is not \<^verbatim>\<open>nil\<close>.
\<close>

definition field_hit :: "string \<Rightarrow> rawPayload \<Rightarrow> payload option" where
  "field_hit L es =
     (let hits = filter (\<lambda>kv. ToLower (fst kv) = L \<and> snd kv \<noteq> None) es
      in if hits = [] then None else snd (last hits))"

text \<open>A string of ASCII bytes.\<close>

definition ascii :: "string \<Rightarrow> bool" where
  "ascii s \<longleftrightarrow> list_all (in_range 0x00 0x7F) s"

text \<open>How \<^verbatim>\<open>MarshalJSON\<close> writes a feed of \<open>To\<close>.\<close>

definition render :: "GeneralFeed \<Rightarrow> string" where
  "render feed =
     (if Token feed \<noteq> [] then Value (FeedID_of feed) @ '' '' @ Token feed
      else Value (FeedID_of feed))"

text \<open>
  The map that \<^verbatim>\<open>MarshalJSON\<close> hands to \<^verbatim>\<open>json.Marshal\<close>, as a function of the key: the
  entries of \<open>MetaData\<close>, overwritten by the fields in the order of the source.
\<close>

definition payload_map :: "Time \<Rightarrow> Activity \<Rightarrow> string \<Rightarrow> gvalue option" where
  "payload_map now a k =
     (if k = ''to'' \<and> To a \<noteq> [] then Some (GoStrings (map render (To a)))
      else if k = ''time'' then
        Some (GoString (Format (case TimeStamp a of None \<Rightarrow> now | Some t \<Rightarrow> t)))
      else if k = ''foreign_id'' \<and> ForeignID a \<noteq> [] then Some (GoString (ForeignID a))
      else if k = ''data'' \<and> Data a \<noteq> None then map_option GoRawMessage (Data a)
      else if k = ''target'' \<and> Target a \<noteq> [] then Some (GoString (Target a))
      else if k = ''id'' \<and> ID a \<noteq> [] then Some (GoString (ID a))
      else if k = ''origin'' then Some (GoString (Value (Origin a)))
      else if k = ''object'' then Some (GoString (Object a))
      else if k = ''verb'' then Some (GoString (Verb a))
      else if k = ''actor'' then Some (GoString (Actor a))
      else (case MetaData a of
              None \<Rightarrow> None
            | Some md \<Rightarrow> map_option GoGeneric (map_of (rev md) k)))"

text \<open>The keys of the map \<open>MetaData\<close> of an Activity; a \<^verbatim>\<open>nil\<close> map has none.\<close>

definition metadata_keys :: "Activity \<Rightarrow> string set" where
  "metadata_keys a = (case MetaData a of None \<Rightarrow> {} | Some md \<Rightarrow> fst ` set md)"

text \<open>A string that is valid UTF-8, which \<^verbatim>\<open>json.Marshal\<close> writes unchanged.\<close>

definition utf8 :: "string \<Rightarrow> bool" where
  "utf8 s \<longleftrightarrow> valid_utf8 s = s"





text \<open>
  A number literal whose conversion to \<^verbatim>\<open>float64\<close> loses nothing: an integer of at most
  15 digits, without a leading zero, with or without a sign. \<^verbatim>\<open>json.Marshal\<close> writes the
  \<^verbatim>\<open>float64\<close> back with the same digits.
\<close>

definition plain_number :: "string \<Rightarrow> bool" where
  "plain_number n \<longleftrightarrow>
     (let d = (case n of [] \<Rightarrow> [] | c # r \<Rightarrow> if c = CHR ''-'' then r else n) in
      d \<noteq> [] \<and> length d \<le> 15 \<and> list_all isDigit d \<and> (d = ''0'' \<or> hd d \<noteq> CHR ''0''))"

text \<open>
  A JSON value of which \<^const>\<open>generic\<close> is the value that Go decodes: its numbers are
  such integers, and its strings and the names of its members are valid UTF-8.
\<close>

primrec exact_json :: "json \<Rightarrow> bool" where
  "exact_json JNull = True"
| "exact_json (JBool b) = True"
| "exact_json (JNumber n) = plain_number n"
| "exact_json (JString s) = utf8 s"
| "exact_json (JArray vs) = list_all (\<lambda>b. b) (map exact_json vs)"
| "exact_json (JObject kvs) =
     list_all (\<lambda>p. fst p \<and> snd p) (map (map_prod utf8 exact_json) kvs)"





text \<open>A number written with a fixed count of digits, the low digits of the number.\<close>

primrec fixed :: "nat \<Rightarrow> nat \<Rightarrow> string" where
  "fixed 0 n = []"
| "fixed (Suc w) n = fixed w (n div 10) @ [digit (n mod 10)]"

section \<open>Properties\<close>

subsection \<open>What the two patterns match\<close>

lemma MatchString_Once:
  "MatchString ((cls, Once) # r) s \<longleftrightarrow> (\<exists>c b. s = c # b \<and> cls c \<and> MatchString r b)"
  by (cases s) auto

lemma MatchString_ZeroOrMore:
  "MatchString ((cls, ZeroOrMore) # r) s \<longleftrightarrow>
     (\<exists>a b. s = a @ b \<and> (\<forall>c\<in>set a. cls c) \<and> MatchString r b)"
proof (induction s)
  case Nil
  then show ?case by auto
next
  case (Cons x s)
  show ?case
  proof
    assume m: "MatchString ((cls, ZeroOrMore) # r) (x # s)"
    show "\<exists>a b. x # s = a @ b \<and> (\<forall>c\<in>set a. cls c) \<and> MatchString r b"
    proof (cases "MatchString r (x # s)")
      case True
      then have "x # s = [] @ (x # s) \<and> (\<forall>c\<in>set []. cls c) \<and> MatchString r (x # s)" by simp
      then show ?thesis by blast
    next
      case False
      with m have "cls x" and "MatchString ((cls, ZeroOrMore) # r) s" by auto
      with Cons.IH obtain a b where "s = a @ b" "\<forall>c\<in>set a. cls c" "MatchString r b" by blast
      with \<open>cls x\<close> have "x # s = (x # a) @ b \<and> (\<forall>c\<in>set (x # a). cls c) \<and> MatchString r b" by simp
      then show ?thesis by blast
    qed
  next
    assume "\<exists>a b. x # s = a @ b \<and> (\<forall>c\<in>set a. cls c) \<and> MatchString r b"
    then obtain a b where ab: "x # s = a @ b" "\<forall>c\<in>set a. cls c" "MatchString r b" by blast
    show "MatchString ((cls, ZeroOrMore) # r) (x # s)"
    proof (cases a)
      case Nil
      with ab show ?thesis by simp
    next
      case (Cons y a')
      with ab have "x = y" "s = a' @ b" "cls x" "\<forall>c\<in>set a'. cls c" by auto
      with ab(3) Cons.IH have "MatchString ((cls, ZeroOrMore) # r) s" by blast
      with \<open>cls x\<close> show ?thesis by simp
    qed
  qed
qed

lemma MatchString_OneOrMore:
  "MatchString ((cls, OneOrMore) # r) s \<longleftrightarrow>
     (\<exists>a b. s = a @ b \<and> a \<noteq> [] \<and> (\<forall>c\<in>set a. cls c) \<and> MatchString r b)"
proof
  assume "MatchString ((cls, OneOrMore) # r) s"
  then obtain c s' where s: "s = c # s'" "cls c" "MatchString ((cls, ZeroOrMore) # r) s'"
    by (cases s) auto
  then obtain a b where "s' = a @ b" "\<forall>c\<in>set a. cls c" "MatchString r b"
    using MatchString_ZeroOrMore by blast
  with s have "s = (c # a) @ b \<and> c # a \<noteq> [] \<and> (\<forall>c\<in>set (c # a). cls c) \<and> MatchString r b"
    by simp
  then show "\<exists>a b. s = a @ b \<and> a \<noteq> [] \<and> (\<forall>c\<in>set a. cls c) \<and> MatchString r b" by blast
next
  assume "\<exists>a b. s = a @ b \<and> a \<noteq> [] \<and> (\<forall>c\<in>set a. cls c) \<and> MatchString r b"
  then obtain a b where ab: "s = a @ b" "a \<noteq> []" "\<forall>c\<in>set a. cls c" "MatchString r b" by blast
  then obtain c a' where a: "a = c # a'" by (cases a) auto
  with ab have "MatchString ((cls, ZeroOrMore) # r) (a' @ b)"
    using MatchString_ZeroOrMore by fastforce
  with ab a show "MatchString ((cls, OneOrMore) # r) s" by simp
qed

lemma feed_re_iff:
  "MatchString feed_re s \<longleftrightarrow> (\<exists>a b. s = a @ CHR '':'' # b \<and> word a \<and> word b)"
proof -
  have "MatchString feed_re s \<longleftrightarrow>
      (\<exists>a r1. s = a @ r1 \<and> a \<noteq> [] \<and> (\<forall>c\<in>set a. word_char c) \<and>
        (\<exists>c r2. r1 = c # r2 \<and> lit (CHR '':'') c \<and>
          (\<exists>b r3. r2 = b @ r3 \<and> b \<noteq> [] \<and> (\<forall>c\<in>set b. word_char c) \<and> r3 = [])))"
    unfolding feed_re_def
    by (simp only: MatchString_OneOrMore MatchString_Once MatchString.simps(1))
  also have "\<dots> \<longleftrightarrow> (\<exists>a b. s = a @ CHR '':'' # b \<and> word a \<and> word b)"
    unfolding word_def lit_def list_all_iff by (simp add: ex_simps) blast
  finally show ?thesis .
qed

lemma feed_with_token_re_iff:
  "MatchString feed_with_token_re s \<longleftrightarrow>
     (\<exists>a b t. s = a @ CHR '':'' # b @ CHR '' '' # t \<and> word a \<and> word b \<and> CHR 0x0A \<notin> set t)"
proof -
  have "MatchString feed_with_token_re s \<longleftrightarrow>
      (\<exists>a r1. s = a @ r1 \<and> a \<noteq> [] \<and> (\<forall>c\<in>set a. word_char c) \<and>
        (\<exists>c r2. r1 = c # r2 \<and> lit (CHR '':'') c \<and>
          (\<exists>b r3. r2 = b @ r3 \<and> b \<noteq> [] \<and> (\<forall>c\<in>set b. word_char c) \<and>
            (\<exists>d r4. r3 = d # r4 \<and> lit (CHR '' '') d \<and>
              (\<exists>t r5. r4 = t @ r5 \<and> (\<forall>c\<in>set t. any_char c) \<and> r5 = [])))))"
    unfolding feed_with_token_re_def
    by (simp only: MatchString_OneOrMore MatchString_ZeroOrMore MatchString_Once
        MatchString.simps(1))
  also have "\<dots> \<longleftrightarrow>
     (\<exists>a b t. s = a @ CHR '':'' # b @ CHR '' '' # t \<and> word a \<and> word b \<and> CHR 0x0A \<notin> set t)"
    unfolding word_def lit_def any_char_def list_all_iff by (simp add: ex_simps) blast
  finally show ?thesis .
qed

subsection \<open>Splitting, and what the two matchers return\<close>

lemma split_from_no_sep:
  "sep \<notin> set s \<Longrightarrow> split_from sep acc s = [rev acc @ s]"
  by (induction s arbitrary: acc) auto

lemma split_from_at_sep:
  "sep \<notin> set a \<Longrightarrow> split_from sep acc (a @ sep # r) = (rev acc @ a) # split_from sep [] r"
  by (induction a arbitrary: acc) auto

lemma split_from_hd:
  "\<exists>ps. split_from sep acc s = (rev acc @ takeWhile (\<lambda>c. c \<noteq> sep) s) # ps"
proof (induction s arbitrary: acc)
  case Nil
  then show ?case by simp
next
  case (Cons c s)
  show ?case
  proof (cases "c = sep")
    case True
    then show ?thesis by simp
  next
    case False
    with Cons [of "c # acc"] show ?thesis by simp
  qed
qed

lemma takeWhile_before_sep:
  "sep \<notin> set b \<Longrightarrow>
     takeWhile (\<lambda>c. c \<noteq> sep) (b @ r) = b @ takeWhile (\<lambda>c. c \<noteq> sep) r"
  by (induction b) auto

lemma Split_at_sep:
  "sep \<notin> set a \<Longrightarrow> Split (a @ sep # r) sep = a # Split r sep"
  by (simp add: Split_def split_from_at_sep)

lemma Split_hd: "\<exists>ps. Split s sep = takeWhile (\<lambda>c. c \<noteq> sep) s # ps"
  using split_from_hd [of sep "[]" s] by (simp add: Split_def)

lemma word_char_not_colon: "word_char c \<Longrightarrow> c \<noteq> CHR '':''"
  by (auto simp: word_char_def)

lemma word_char_not_space: "word_char c \<Longrightarrow> c \<noteq> CHR '' ''"
  by (auto simp: word_char_def)

lemma word_no_colon: "word w \<Longrightarrow> CHR '':'' \<notin> set w"
  by (auto simp: word_def list_all_iff dest: word_char_not_colon)

lemma word_no_space: "word w \<Longrightarrow> CHR '' '' \<notin> set w"
  by (auto simp: word_def list_all_iff dest: word_char_not_space)

text \<open>The pieces the matchers read from a string of the shape of the second pattern.\<close>

lemma Split_with_token:
  assumes "word a" "word b"
  shows "\<exists>ps qs. Split (a @ CHR '':'' # b @ CHR '' '' # t) (CHR '':'') =
            a # (b @ CHR '' '' # takeWhile (\<lambda>c. c \<noteq> CHR '':'') t) # ps \<and>
          Split (b @ CHR '' '' # takeWhile (\<lambda>c. c \<noteq> CHR '':'') t) (CHR '' '') =
            b # takeWhile (\<lambda>c. c \<noteq> CHR '' '') (takeWhile (\<lambda>c. c \<noteq> CHR '':'') t) # qs"
proof -
  have a: "CHR '':'' \<notin> set a" and b: "CHR '':'' \<notin> set b" and b': "CHR '' '' \<notin> set b"
    using assms by (simp_all add: word_no_colon word_no_space)
  have 1: "Split (a @ CHR '':'' # b @ CHR '' '' # t) (CHR '':'') =
      a # Split (b @ CHR '' '' # t) (CHR '':'')"
    using a by (rule Split_at_sep)
  obtain ps where 2: "Split (b @ CHR '' '' # t) (CHR '':'') =
      takeWhile (\<lambda>c. c \<noteq> CHR '':'') (b @ CHR '' '' # t) # ps"
    using Split_hd by blast
  have 3: "takeWhile (\<lambda>c. c \<noteq> CHR '':'') (b @ CHR '' '' # t) =
      b @ CHR '' '' # takeWhile (\<lambda>c. c \<noteq> CHR '':'') t"
    using b by (simp add: takeWhile_before_sep)
  have 4: "Split (b @ CHR '' '' # takeWhile (\<lambda>c. c \<noteq> CHR '':'') t) (CHR '' '') =
      b # Split (takeWhile (\<lambda>c. c \<noteq> CHR '':'') t) (CHR '' '')"
    using b' by (rule Split_at_sep)
  obtain qs where 5: "Split (takeWhile (\<lambda>c. c \<noteq> CHR '':'') t) (CHR '' '') =
      takeWhile (\<lambda>c. c \<noteq> CHR '' '') (takeWhile (\<lambda>c. c \<noteq> CHR '':'') t) # qs"
    using Split_hd by blast
  from 1 2 3 4 5 show ?thesis by simp
qed

lemma takeWhile_takeWhile:
  "takeWhile P (takeWhile Q t) = takeWhile (\<lambda>c. P c \<and> Q c) t"
  by (induction t) auto

lemma matchFeedWithToken_shape:
  assumes "word a" "word b" "CHR 0x0A \<notin> set t"
  shows "matchFeedWithToken (a @ CHR '':'' # b @ CHR '' '' # t) =
     Inr (Some \<lparr>FeedSlug = a, UserID = b,
       token = takeWhile (\<lambda>c. c \<noteq> CHR '' '' \<and> c \<noteq> CHR '':'') t\<rparr>)"
proof -
  have m: "MatchString feed_with_token_re (a @ CHR '':'' # b @ CHR '' '' # t)"
    using assms feed_with_token_re_iff by blast
  obtain ps qs where s: "Split (a @ CHR '':'' # b @ CHR '' '' # t) (CHR '':'') =
            a # (b @ CHR '' '' # takeWhile (\<lambda>c. c \<noteq> CHR '':'') t) # ps"
          "Split (b @ CHR '' '' # takeWhile (\<lambda>c. c \<noteq> CHR '':'') t) (CHR '' '') =
            b # takeWhile (\<lambda>c. c \<noteq> CHR '' '') (takeWhile (\<lambda>c. c \<noteq> CHR '':'') t) # qs"
    using Split_with_token [OF assms(1,2)] by blast
  have i1: "index (Split (a @ CHR '':'' # b @ CHR '' '' # t) (CHR '':'')) 1 =
      Inr (b @ CHR '' '' # takeWhile (\<lambda>c. c \<noteq> CHR '':'') t)"
    and i0: "index (Split (a @ CHR '':'' # b @ CHR '' '' # t) (CHR '':'')) 0 = Inr a"
    by (simp_all add: s(1) index_def)
  have j0: "index (Split (b @ CHR '' '' # takeWhile (\<lambda>c. c \<noteq> CHR '':'') t) (CHR '' '')) 0 =
      Inr b"
    and j1: "index (Split (b @ CHR '' '' # takeWhile (\<lambda>c. c \<noteq> CHR '':'') t) (CHR '' '')) 1 =
      Inr (takeWhile (\<lambda>c. c \<noteq> CHR '' '' \<and> c \<noteq> CHR '':'') t)"
    by (simp_all add: s(2) index_def takeWhile_takeWhile)
  show ?thesis
    unfolding matchFeedWithToken_def Let_def
    by (simp only: m if_True i1 i0 j0 j1 sum.case)
qed

lemma matchFeedWithToken_no_match:
  "\<not> MatchString feed_with_token_re to \<Longrightarrow> matchFeedWithToken to = Inr None"
  by (simp add: matchFeedWithToken_def)

lemma matchFeed_shape:
  assumes "word a" "word b"
  shows "matchFeed (a @ CHR '':'' # b) = Inr (Some \<lparr>FeedSlug = a, UserID = b, token = []\<rparr>)"
proof -
  have m: "MatchString feed_re (a @ CHR '':'' # b)"
    using assms feed_re_iff by blast
  have "Split (a @ CHR '':'' # b) (CHR '':'') = a # Split b (CHR '':'')"
    using assms(1) by (simp add: Split_at_sep word_no_colon)
  moreover have "Split b (CHR '':'') = [b]"
    using assms(2) by (simp add: Split_def split_from_no_sep word_no_colon)
  ultimately show ?thesis
    unfolding matchFeed_def by (simp add: m index_def)
qed

lemma matchFeed_no_match: "\<not> MatchString feed_re to \<Longrightarrow> matchFeed to = Inr None"
  by (simp add: matchFeed_def)

text \<open>A string with a space does not match the first pattern, one without does not match the second.\<close>

lemma feed_re_no_space: "MatchString feed_re s \<Longrightarrow> CHR '' '' \<notin> set s"
  by (auto simp: feed_re_iff dest: word_no_space)

lemma feed_with_token_re_space: "MatchString feed_with_token_re s \<Longrightarrow> CHR '' '' \<in> set s"
  by (auto simp: feed_with_token_re_iff)

lemma not_both: "\<not> (MatchString feed_re s \<and> MatchString feed_with_token_re s)"
  using feed_re_no_space feed_with_token_re_space by blast

lemma matchFeed_Some_matches: "matchFeed to = Inr (Some g) \<Longrightarrow> MatchString feed_re to"
  by (rule ccontr) (simp add: matchFeed_no_match)

lemma matchFeedWithToken_Some_matches:
  "matchFeedWithToken to = Inr (Some g) \<Longrightarrow> MatchString feed_with_token_re to"
  by (rule ccontr) (simp add: matchFeedWithToken_no_match)

lemma matchFeed_returns: "\<exists>r. matchFeed to = Inr r"
proof (cases "MatchString feed_re to")
  case True
  then obtain a b where "to = a @ CHR '':'' # b" "word a" "word b"
    using feed_re_iff by blast
  then show ?thesis by (simp add: matchFeed_shape)
next
  case False
  then show ?thesis by (simp add: matchFeed_no_match)
qed

lemma matchFeedWithToken_returns: "\<exists>r. matchFeedWithToken to = Inr r"
proof (cases "MatchString feed_with_token_re to")
  case True
  then obtain a b t where "to = a @ CHR '':'' # b @ CHR '' '' # t" "word a" "word b"
      "CHR 0x0A \<notin> set t"
    using feed_with_token_re_iff by blast
  then show ?thesis by (simp add: matchFeedWithToken_shape)
next
  case False
  then show ?thesis by (simp add: matchFeedWithToken_no_match)
qed

text \<open>
  C10: \<^verbatim>\<open>matchFeedWithToken\<close> returns for every string and no slice access of it is out of
  range: whenever the pattern \<^verbatim>\<open>^\w+:\w+ .*?$\<close> matches, splitting the string at \<^verbatim>\<open>":"\<close>
  gives at least two segments and splitting the segment after the colon at \<^verbatim>\<open>" "\<close> gives
  at least two pieces, so \<^verbatim>\<open>firstSplit[1]\<close>, \<^verbatim>\<open>secondSplit[0]\<close> and \<^verbatim>\<open>secondSplit[1]\<close>
  exist.
\<close>

theorem matchFeedWithToken_in_bounds:
  "(\<exists>r. matchFeedWithToken to = Inr r) \<and>
   (MatchString feed_with_token_re to \<longrightarrow>
      2 \<le> length (Split to (CHR '':'')) \<and>
      2 \<le> length (Split (Split to (CHR '':'') ! 1) (CHR '' '')))"
proof (intro conjI impI)
  show "\<exists>r. matchFeedWithToken to = Inr r"
    by (rule matchFeedWithToken_returns)
next
  assume "MatchString feed_with_token_re to"
  then obtain a b t where to: "to = a @ CHR '':'' # b @ CHR '' '' # t" and w: "word a" "word b"
    using feed_with_token_re_iff by blast
  obtain ps qs where s: "Split to (CHR '':'') =
        a # (b @ CHR '' '' # takeWhile (\<lambda>c. c \<noteq> CHR '':'') t) # ps"
      "Split (b @ CHR '' '' # takeWhile (\<lambda>c. c \<noteq> CHR '':'') t) (CHR '' '') =
        b # takeWhile (\<lambda>c. c \<noteq> CHR '' '') (takeWhile (\<lambda>c. c \<noteq> CHR '':'') t) # qs"
    using Split_with_token [OF w] unfolding to by blast
  show "2 \<le> length (Split to (CHR '':''))"
    by (simp add: s(1))
  show "2 \<le> length (Split (Split to (CHR '':'') ! 1) (CHR '' ''))"
    by (simp add: s)
qed

theorem matchFeedWithToken_in_bounds_witness:
  "MatchString feed_with_token_re ''user:2 tok123'' \<and>
   2 \<le> length (Split ''user:2 tok123'' (CHR '':'')) \<and>
   2 \<le> length (Split (Split ''user:2 tok123'' (CHR '':'') ! 1) (CHR '' ''))"
proof -
  have "MatchString feed_with_token_re ''user:2 tok123''"
    by code_simp
  with matchFeedWithToken_in_bounds [of "''user:2 tok123''"] show ?thesis
    by blast
qed

lemma one_matcher_declines: "matchFeed to = Inr None \<or> matchFeedWithToken to = Inr None"
  using not_both [of to] matchFeed_no_match [of to] matchFeedWithToken_no_match [of to]
  by blast

lemma To_loop_appends:
  "\<exists>fs. To_loop tos feed = Inr (feed @ fs) \<and> length fs \<le> length tos"
proof (induction tos arbitrary: feed)
  case Nil
  show ?case by simp
next
  case (Cons to tos)
  obtain m1 m2 where m: "matchFeed to = Inr m1" "matchFeedWithToken to = Inr m2"
    using matchFeed_returns matchFeedWithToken_returns by blast
  have one: "m1 = None \<or> m2 = None"
    using m one_matcher_declines [of to] by auto
  define new where "new = (case m1 of None \<Rightarrow> [] | Some g \<Rightarrow> [g]) @
    (case m2 of None \<Rightarrow> [] | Some g \<Rightarrow> [g])"
  have step: "To_loop (to # tos) feed = To_loop tos (feed @ new)"
    by (simp add: m new_def split: option.splits)
  obtain fs where fs: "To_loop tos (feed @ new) = Inr ((feed @ new) @ fs)"
      "length fs \<le> length tos"
    using Cons.IH by blast
  have "length new \<le> 1"
    using one by (auto simp: new_def split: option.splits)
  with fs step have "To_loop (to # tos) feed = Inr (feed @ new @ fs) \<and>
      length (new @ fs) \<le> length (to # tos)"
    by simp
  then show ?case by blast
qed

text \<open>
  C4, as the claim states it, fails: the claim has some string match both patterns and
  append two references. No string does.
\<close>

theorem no_string_gives_two_references:
  "\<not> (\<exists>to g1 g2. matchFeed to = Inr (Some g1) \<and> matchFeedWithToken to = Inr (Some g2))"
proof
  assume "\<exists>to g1 g2. matchFeed to = Inr (Some g1) \<and> matchFeedWithToken to = Inr (Some g2)"
  then obtain to g1 g2 where
    m: "matchFeed to = Inr (Some g1)" "matchFeedWithToken to = Inr (Some g2)"
    by blast
  from m(1) have "MatchString feed_re to"
    by (rule matchFeed_Some_matches)
  moreover from m(2) have "MatchString feed_with_token_re to"
    by (rule matchFeedWithToken_Some_matches)
  ultimately show False
    using not_both by blast
qed

text \<open>
  C4, amended: in the parsing of a flat list both patterns are tried on every string, the
  one without token first, but no string matches both (the first pattern admits no space,
  the second needs one): a string appends at most one reference, and a list of strings at
  most as many references as it has strings.
\<close>

theorem To_loop_at_most_one_each:
  "(matchFeed to = Inr None \<or> matchFeedWithToken to = Inr None) \<and>
   (\<exists>fs. To_loop tos feed = Inr (feed @ fs) \<and> length fs \<le> length tos)"
  using one_matcher_declines [of to] To_loop_appends [of tos feed] by blast

text \<open>
  C5, as the claim states it, fails: a token with a space is cut at that space, and an
  empty token matches too.
\<close>

theorem matchFeedWithToken_cuts_token:
  "matchFeedWithToken ''user:2 tok 123'' =
     Inr (Some \<lparr>FeedSlug = ''user'', UserID = ''2'', token = ''tok''\<rparr>) \<and>
   matchFeedWithToken ''user:2 '' =
     Inr (Some \<lparr>FeedSlug = ''user'', UserID = ''2'', token = []\<rparr>)"
  by code_simp

text \<open>
  C5, amended: a flat string yields a reference with token exactly when it is a word, a
  colon, a word, one space and a remainder on one line, possibly empty. The slug is then
  the segment before the colon, the user id the segment between the colon and the first
  space, and the token the remainder after that space up to its first space or colon: the
  entire remainder when it has neither.
\<close>

theorem matchFeedWithToken_result:
  "((\<exists>g. matchFeedWithToken to = Inr (Some g)) \<longleftrightarrow>
      (\<exists>a b t. to = a @ CHR '':'' # b @ CHR '' '' # t \<and> word a \<and> word b \<and>
         CHR 0x0A \<notin> set t)) \<and>
   (word a \<and> word b \<and> CHR 0x0A \<notin> set t \<longrightarrow>
      matchFeedWithToken (a @ CHR '':'' # b @ CHR '' '' # t) =
        Inr (Some \<lparr>FeedSlug = a, UserID = b,
          token = takeWhile (\<lambda>c. c \<noteq> CHR '' '' \<and> c \<noteq> CHR '':'') t\<rparr>)) \<and>
   (word a \<and> word b \<and> CHR 0x0A \<notin> set t \<and> CHR '' '' \<notin> set t \<and> CHR '':'' \<notin> set t \<longrightarrow>
      matchFeedWithToken (a @ CHR '':'' # b @ CHR '' '' # t) =
        Inr (Some \<lparr>FeedSlug = a, UserID = b, token = t\<rparr>))"
proof (intro conjI impI)
  show "(\<exists>g. matchFeedWithToken to = Inr (Some g)) \<longleftrightarrow>
      (\<exists>a b t. to = a @ CHR '':'' # b @ CHR '' '' # t \<and> word a \<and> word b \<and>
         CHR 0x0A \<notin> set t)"
  proof
    assume "\<exists>g. matchFeedWithToken to = Inr (Some g)"
    then have "MatchString feed_with_token_re to"
      using matchFeedWithToken_Some_matches by blast
    then show "\<exists>a b t. to = a @ CHR '':'' # b @ CHR '' '' # t \<and> word a \<and> word b \<and>
         CHR 0x0A \<notin> set t"
      by (simp only: feed_with_token_re_iff)
  next
    assume "\<exists>a b t. to = a @ CHR '':'' # b @ CHR '' '' # t \<and> word a \<and> word b \<and>
         CHR 0x0A \<notin> set t"
    then show "\<exists>g. matchFeedWithToken to = Inr (Some g)"
      using matchFeedWithToken_shape by blast
  qed
next
  assume "word a \<and> word b \<and> CHR 0x0A \<notin> set t"
  then show "matchFeedWithToken (a @ CHR '':'' # b @ CHR '' '' # t) =
        Inr (Some \<lparr>FeedSlug = a, UserID = b,
          token = takeWhile (\<lambda>c. c \<noteq> CHR '' '' \<and> c \<noteq> CHR '':'') t\<rparr>)"
    by (simp add: matchFeedWithToken_shape)
next
  assume h: "word a \<and> word b \<and> CHR 0x0A \<notin> set t \<and> CHR '' '' \<notin> set t \<and> CHR '':'' \<notin> set t"
  then have "takeWhile (\<lambda>c. c \<noteq> CHR '' '' \<and> c \<noteq> CHR '':'') t = t"
    by (auto simp: takeWhile_eq_all_conv)
  with h show "matchFeedWithToken (a @ CHR '':'' # b @ CHR '' '' # t) =
        Inr (Some \<lparr>FeedSlug = a, UserID = b, token = t\<rparr>)"
    by (simp add: matchFeedWithToken_shape)
qed

theorem matchFeedWithToken_result_witness:
  "word ''user'' \<and> word ''2'' \<and> CHR 0x0A \<notin> set ''tok123'' \<and> CHR '' '' \<notin> set ''tok123'' \<and>
   CHR '':'' \<notin> set ''tok123'' \<and>
   matchFeedWithToken ''user:2 tok123'' =
     Inr (Some \<lparr>FeedSlug = ''user'', UserID = ''2'', token = ''tok123''\<rparr>)"
proof -
  have h: "word ''user'' \<and> word ''2'' \<and> CHR 0x0A \<notin> set ''tok123'' \<and>
      CHR '' '' \<notin> set ''tok123'' \<and> CHR '':'' \<notin> set ''tok123''"
    by code_simp
  with matchFeedWithToken_result [of "''user:2 tok123''" "''user''" "''2''" "''tok123''"]
  show ?thesis by simp
qed

subsection \<open>The decoder returns\<close>

lemma To_of_returns: "\<exists>feed. To_of p = Inr feed"
  using To_loop_appends [of "to1D p" "[]"] by (auto simp: To_of_def)

lemma switch_key_returns: "\<exists>st'. switch_key key p st = Inr st'"
proof -
  obtain feed where "To_of p = Inr feed"
    using To_of_returns by blast
  then show ?thesis
    by (cases st) (simp add: switch_key_def Let_def split: prod.splits)
qed

lemma range_loop_returns: "\<exists>st'. range_loop es st = Inr st'"
proof (induction es arbitrary: st)
  case Nil
  show ?case by simp
next
  case (Cons e es)
  obtain key v where e: "e = (key, v)" by (cases e)
  show ?case
  proof (cases v)
    case None
    with e Cons.IH show ?thesis by simp
  next
    case (Some p)
    obtain st' where "switch_key key p st = Inr st'"
      using switch_key_returns by blast
    with e Some Cons.IH [of st'] show ?thesis by simp
  qed
qed

lemma UnmarshalJSON_returns_iff:
  "(\<exists>a'. UnmarshalJSON order a b = Inr a') \<longleftrightarrow> fst (Unmarshal_map b) = None"
proof (cases "Unmarshal_map b")
  case (Pair err m)
  show ?thesis
  proof (cases err)
    case None
    obtain a' md where "range_loop (order m) (a, []) = Inr (a', md)"
      using range_loop_returns [of "order m" "(a, [])"] by auto
    with Pair None show ?thesis by (simp add: UnmarshalJSON_def)
  next
    case (Some e)
    with Pair show ?thesis by (simp add: UnmarshalJSON_def)
  qed
qed

lemma UnmarshalJSON_fails_iff:
  "UnmarshalJSON order a b = Inl e \<longleftrightarrow> fst (Unmarshal_map b) = Some e"
proof (cases "Unmarshal_map b")
  case (Pair err m)
  show ?thesis
  proof (cases err)
    case None
    obtain a' md where "range_loop (order m) (a, []) = Inr (a', md)"
      using range_loop_returns [of "order m" "(a, [])"] by auto
    with Pair None show ?thesis by (simp add: UnmarshalJSON_def)
  next
    case (Some e')
    with Pair show ?thesis by (auto simp: UnmarshalJSON_def)
  qed
qed

lemma Unmarshal_map_error:
  "fst (Unmarshal_map b) =
     (case b of NotJSON \<Rightarrow> Some SyntaxError
      | JSON v \<Rightarrow> (case v of JObject kvs \<Rightarrow> None | JNull \<Rightarrow> None | _ \<Rightarrow> Some UnmarshalTypeError))"
  by (cases b rule: Unmarshal_map.cases) simp_all

subsection \<open>What the loop of the decoder stores\<close>

lemma feeds_eq: "To_of p = Inr (feeds p)"
  using To_of_returns [of p] by (auto simp: feeds_def)

lemma switch_key_eq:
  "switch_key key p (a, md) =
     Inr (let lowerKey = ToLower key in
      if lowerKey = ''id'' then (a\<lparr>ID := String p\<rparr>, md)
      else if lowerKey = ''actor'' then (a\<lparr>Actor := String p\<rparr>, md)
      else if lowerKey = ''verb'' then (a\<lparr>Verb := String p\<rparr>, md)
      else if lowerKey = ''foreign_id'' then (a\<lparr>ForeignID := String p\<rparr>, md)
      else if lowerKey = ''object'' then (a\<lparr>Object := String p\<rparr>, md)
      else if lowerKey = ''origin'' then (a\<lparr>Origin := String p\<rparr>, md)
      else if lowerKey = ''target'' then (a\<lparr>Target := String p\<rparr>, md)
      else if lowerKey = ''time'' then (a\<lparr>TimeStamp := TimeStamp_of p\<rparr>, md)
      else if lowerKey = ''data'' then (a\<lparr>Data := Some (RawMessage p)\<rparr>, md)
      else if lowerKey = ''to'' then (a\<lparr>To := feeds p\<rparr>, md)
      else (a, AList.update key (snd (Unmarshal_interface (RawMessage p))) md))"
  by (simp add: switch_key_def Let_def feeds_eq split: prod.splits)

lemma range_loop_append:
  "range_loop (es @ fs) st =
     (case range_loop es st of Inl e \<Rightarrow> Inl e | Inr st' \<Rightarrow> range_loop fs st')"
proof (induction es arbitrary: st)
  case Nil
  show ?case by simp
next
  case (Cons e es)
  obtain key v where e: "e = (key, v)" by (cases e)
  show ?case
    using Cons.IH by (simp add: e split: option.splits sum.splits)
qed

lemma field_hit_snoc:
  "field_hit L (es @ [(k, v)]) =
     (if ToLower k = L \<and> v \<noteq> None then v else field_hit L es)"
  by (simp add: field_hit_def Let_def)

lemma range_loop_field:
  assumes sw: "\<And>key p a md a' md'. switch_key key p (a, md) = Inr (a', md') \<Longrightarrow>
      g a' = (if ToLower key = L then c p else g a)"
    and run: "range_loop es (a, md) = Inr (a', md')"
  shows "g a' = (case field_hit L es of None \<Rightarrow> g a | Some p \<Rightarrow> c p)"
  using run
proof (induction es arbitrary: a' md' rule: rev_induct)
  case Nil
  then show ?case by (simp add: field_hit_def)
next
  case (snoc e es)
  obtain key v where e: "e = (key, v)" by (cases e)
  obtain a1 md1 where mid: "range_loop es (a, md) = Inr (a1, md1)"
    using range_loop_returns [of es "(a, md)"] by auto
  with snoc.prems have last: "range_loop [(key, v)] (a1, md1) = Inr (a', md')"
    by (simp add: range_loop_append e)
  have IH: "g a1 = (case field_hit L es of None \<Rightarrow> g a | Some p \<Rightarrow> c p)"
    using snoc.IH mid by blast
  show ?case
  proof (cases v)
    case None
    with last have "a' = a1" by simp
    with IH None show ?thesis by (simp add: e field_hit_snoc)
  next
    case (Some p)
    from last Some have "switch_key key p (a1, md1) = Inr (a', md')"
      by (simp split: sum.splits)
    then have "g a' = (if ToLower key = L then c p else g a1)"
      by (rule sw)
    with IH Some show ?thesis by (simp add: e field_hit_snoc)
  qed
qed

lemma switch_key_projections:
  assumes "switch_key key p (a, md) = Inr (a', md')"
  shows "ID a' = (if ToLower key = ''id'' then String p else ID a)"
    and "Actor a' = (if ToLower key = ''actor'' then String p else Actor a)"
    and "Verb a' = (if ToLower key = ''verb'' then String p else Verb a)"
    and "ForeignID a' = (if ToLower key = ''foreign_id'' then String p else ForeignID a)"
    and "Object a' = (if ToLower key = ''object'' then String p else Object a)"
    and "Origin a' = (if ToLower key = ''origin'' then String p else Origin a)"
    and "Target a' = (if ToLower key = ''target'' then String p else Target a)"
    and "TimeStamp a' = (if ToLower key = ''time'' then TimeStamp_of p else TimeStamp a)"
    and "Data a' = (if ToLower key = ''data'' then Some (RawMessage p) else Data a)"
    and "To a' = (if ToLower key = ''to'' then feeds p else To a)"
  using assms unfolding switch_key_eq Let_def
  by (auto split: if_splits)

lemma ToLower_recognized_iff:
  "ToLower key \<in> set recognized \<longleftrightarrow>
     ToLower key = ''id'' \<or> ToLower key = ''actor'' \<or> ToLower key = ''verb'' \<or>
     ToLower key = ''foreign_id'' \<or> ToLower key = ''object'' \<or> ToLower key = ''origin'' \<or>
     ToLower key = ''target'' \<or> ToLower key = ''time'' \<or> ToLower key = ''data'' \<or>
     ToLower key = ''to''"
  by (simp add: recognized_def)

lemma switch_key_metadata:
  assumes "switch_key key p (a, md) = Inr (a', md')"
  shows "md' = (if ToLower key \<in> set recognized then md
                else AList.update key (snd (Unmarshal_interface (RawMessage p))) md)"
    and "MetaData a' = MetaData a"
  using assms unfolding switch_key_eq Let_def ToLower_recognized_iff
  by (auto split: if_splits)

text \<open>The keys of the local map \<open>metadata\<close> after the loop.\<close>

lemma range_loop_metadata_keys:
  assumes "range_loop es (a, md) = Inr (a', md')"
  shows "fst ` set md' =
     fst ` set md \<union> {k. \<exists>p. (k, Some p) \<in> set es \<and> ToLower k \<notin> set recognized}"
  using assms
proof (induction es arbitrary: a md)
  case Nil
  then show ?case by simp
next
  case (Cons e es)
  obtain key v where e: "e = (key, v)" by (cases e)
  show ?case
  proof (cases v)
    case None
    with Cons e show ?thesis by auto
  next
    case (Some p)
    obtain a1 md1 where sw: "switch_key key p (a, md) = Inr (a1, md1)"
      using switch_key_returns [of key p "(a, md)"] by auto
    with Cons.prems e Some have rest: "range_loop es (a1, md1) = Inr (a', md')"
      by simp
    have md1: "fst ` set md1 =
        fst ` set md \<union> (if ToLower key \<in> set recognized then {} else {key})"
      using switch_key_metadata(1) [OF sw] by (simp add: AList.dom_update)
    show ?thesis
      using Cons.IH [OF rest] md1 e Some by auto
  qed
qed

text \<open>The entries of \<open>metadata\<close> after the loop, when the map visited has one entry for a key.\<close>

lemma range_loop_metadata_lookup:
  assumes "range_loop es (a, md) = Inr (a', md')" and "distinct (map fst es)"
  shows "map_of md' k =
     (case map_of es k of
        Some (Some p) \<Rightarrow>
          if ToLower k \<in> set recognized then map_of md k
          else Some (snd (Unmarshal_interface (RawMessage p)))
      | _ \<Rightarrow> map_of md k)"
  using assms
proof (induction es arbitrary: a md)
  case Nil
  then show ?case by simp
next
  case (Cons e es)
  obtain key v where e: "e = (key, v)" by (cases e)
  from Cons.prems(2) e have fresh: "key \<notin> fst ` set es" and d: "distinct (map fst es)"
    by auto
  from fresh have none: "map_of es key = None"
    by (simp add: map_of_eq_None_iff)
  show ?case
  proof (cases v)
    case None
    with Cons.prems e have "range_loop es (a, md) = Inr (a', md')" by simp
    from Cons.IH [OF this d] show ?thesis
      using e None none by (cases "k = key") (auto split: option.splits)
  next
    case (Some p)
    obtain a1 md1 where sw: "switch_key key p (a, md) = Inr (a1, md1)"
      using switch_key_returns [of key p "(a, md)"] by auto
    with Cons.prems e Some have rest: "range_loop es (a1, md1) = Inr (a', md')"
      by simp
    have md1: "map_of md1 k =
        (if ToLower key \<notin> set recognized \<and> k = key
         then Some (snd (Unmarshal_interface (RawMessage p))) else map_of md k)"
      using switch_key_metadata(1) [OF sw] by (simp add: update_conv')
    from Cons.IH [OF rest d] show ?thesis
      using e Some none md1 by (cases "k = key") (auto split: option.splits)
  qed
qed

lemma range_loop_metadata_distinct:
  assumes "range_loop es (a, md) = Inr (a', md')" and "distinct (map fst md)"
  shows "distinct (map fst md')"
  using assms
proof (induction es arbitrary: a md)
  case Nil
  then show ?case by simp
next
  case (Cons e es)
  obtain key v where e: "e = (key, v)" by (cases e)
  show ?case
  proof (cases v)
    case None
    with Cons e show ?thesis by auto
  next
    case (Some p)
    obtain a1 md1 where sw: "switch_key key p (a, md) = Inr (a1, md1)"
      using switch_key_returns [of key p "(a, md)"] by auto
    with Cons.prems e Some have rest: "range_loop es (a1, md1) = Inr (a', md')"
      by simp
    have "distinct (map fst md1)"
      using switch_key_metadata(1) [OF sw] Cons.prems(2) by (simp add: distinct_update)
    with Cons.IH [OF rest] show ?thesis by blast
  qed
qed

text \<open>The loop neither reads nor writes the field \<open>MetaData\<close> of the receiver.\<close>

lemma switch_key_ignores_MetaData:
  "switch_key key p (a\<lparr>MetaData := x\<rparr>, md) =
     (case switch_key key p (a, md) of
        Inl e \<Rightarrow> Inl e
      | Inr (a', md') \<Rightarrow> Inr (a'\<lparr>MetaData := x\<rparr>, md'))"
  unfolding switch_key_eq Let_def by simp

lemma range_loop_ignores_MetaData:
  "range_loop es (a\<lparr>MetaData := x\<rparr>, md) =
     (case range_loop es (a, md) of
        Inl e \<Rightarrow> Inl e
      | Inr (a', md') \<Rightarrow> Inr (a'\<lparr>MetaData := x\<rparr>, md'))"
proof (induction es arbitrary: a md)
  case Nil
  show ?case by simp
next
  case (Cons e es)
  obtain key v where e: "e = (key, v)" by (cases e)
  show ?case
  proof (cases v)
    case None
    with Cons e show ?thesis by simp
  next
    case (Some p)
    obtain a1 md1 where sw: "switch_key key p (a, md) = Inr (a1, md1)"
      using switch_key_returns [of key p "(a, md)"] by auto
    then show ?thesis
      using Cons.IH [of a1 md1] by (simp add: e Some switch_key_ignores_MetaData)
  qed
qed

text \<open>The map that the top-level decoding builds from the members of an object.\<close>

lemma fold_update_distinct:
  "distinct (map fst acc) \<Longrightarrow>
     distinct (map fst (fold (\<lambda>kv m. AList.update (fst kv) (f (snd kv)) m) kvs acc))"
  by (induction kvs arbitrary: acc) (simp_all add: distinct_update)

lemma fold_update_lookup:
  "map_of (fold (\<lambda>kv m. AList.update (fst kv) (f (snd kv)) m) kvs acc) k =
     (case map_of (rev kvs) k of None \<Rightarrow> map_of acc k | Some v \<Rightarrow> Some (f v))"
proof (induction kvs arbitrary: acc)
  case Nil
  show ?case by simp
next
  case (Cons kv kvs)
  show ?case
    by (cases kv) (simp add: Cons.IH update_conv' map_add_def split: option.splits)
qed

lemma fold_update_keys:
  "fst ` set (fold (\<lambda>kv m. AList.update (fst kv) (f (snd kv)) m) kvs acc) =
     fst ` set kvs \<union> fst ` set acc"
  by (induction kvs arbitrary: acc) (auto simp: AList.dom_update)

lemma Unmarshal_map_object:
  "\<exists>m. Unmarshal_map (JSON (JObject kvs)) = (None, m) \<and> distinct (map fst m) \<and>
     fst ` set m = fst ` set kvs \<and>
     (\<forall>k. map_of m k = map_option raw_member (map_of (rev kvs) k))"
  by (simp add: fold_update_distinct fold_update_lookup fold_update_keys split: option.splits)

lemma Unmarshal_map_distinct: "distinct (map fst (snd (Unmarshal_map b)))"
  by (cases b rule: Unmarshal_map.cases) (simp_all add: fold_update_distinct)

text \<open>An entry of the map comes from a member of the object.\<close>

lemma Unmarshal_map_entry:
  assumes "Unmarshal_map (JSON (JObject kvs)) = (err, m)" and "(k, Some p) \<in> set m"
  shows "\<exists>v. (k, v) \<in> set kvs \<and> v \<noteq> JNull \<and> p = Payload (JSON v)"
proof -
  obtain m' where m': "Unmarshal_map (JSON (JObject kvs)) = (None, m')" "distinct (map fst m')"
      "\<forall>k. map_of m' k = map_option raw_member (map_of (rev kvs) k)"
    using Unmarshal_map_object by blast
  from m'(1) assms(1) have mm: "m = m'" by simp
  from assms(2) m'(2) have "map_of m' k = Some (Some p)"
    unfolding mm by (rule map_of_is_SomeI [rotated])
  with m'(3) have "map_option raw_member (map_of (rev kvs) k) = Some (Some p)"
    by simp
  then obtain v where v: "map_of (rev kvs) k = Some v" "raw_member v = Some p"
    by (cases "map_of (rev kvs) k") auto
  from v(1) have "(k, v) \<in> set kvs"
    using map_of_SomeD by fastforce
  with v(2) show ?thesis
    by (auto simp: raw_member_def split: if_splits)
qed

text \<open>Visiting the entries of a map with one entry for a key, in another order.\<close>

lemma visit_order:
  assumes "mset es' = mset es" and "distinct (map fst es)"
  shows "set es' = set es" and "distinct (map fst es')" and "map_of es' = map_of es"
proof -
  show s: "set es' = set es"
    using assms(1) by (rule mset_eq_setD)
  have "mset (map fst es') = mset (map fst es)"
    using assms(1) by simp
  then show d: "distinct (map fst es')"
    using assms(2) by (metis distinct_count_atmost_1 set_mset_mset)
  show "map_of es' = map_of es"
    using s d assms(2) by (simp add: map_of_inject_set)
qed

text \<open>
  When the keys that read \<open>L\<close> in lower case are all the one key \<open>K\<close>, the payload stored
  for \<open>L\<close> is that of the entry of \<open>K\<close>, in whatever order the entries are visited.
\<close>

lemma field_hit_only_key:
  assumes "distinct (map fst es)" and "ToLower K = L"
    and "\<And>k v. (k, v) \<in> set es \<Longrightarrow> ToLower k = L \<Longrightarrow> k = K"
  shows "field_hit L es = (case map_of es K of Some v \<Rightarrow> v | None \<Rightarrow> None)"
  using assms(1,3)
proof (induction es rule: rev_induct)
  case Nil
  show ?case by (simp add: field_hit_def)
next
  case (snoc e es)
  obtain k v where e: "e = (k, v)" by (cases e)
  from snoc.prems(1) e have fresh: "k \<notin> fst ` set es" and d: "distinct (map fst es)"
    by auto
  have IH: "field_hit L es = (case map_of es K of Some v \<Rightarrow> v | None \<Rightarrow> None)"
  proof (rule snoc.IH [OF d])
    fix k' v' assume "(k', v') \<in> set es" "ToLower k' = L"
    then show "k' = K" using snoc.prems(2) [of k' v'] by simp
  qed
  show ?case
  proof (cases "ToLower k = L")
    case True
    then have k: "k = K" using snoc.prems(2) [of k v] e by simp
    with fresh have none: "map_of es K = None"
      by (simp add: map_of_eq_None_iff)
    show ?thesis
      using True k none IH by (cases v) (simp_all add: e field_hit_snoc map_add_def)
  next
    case False
    with assms(2) have "k \<noteq> K" by auto
    with False IH show ?thesis
      by (simp add: e field_hit_snoc map_add_def split: option.splits)
  qed
qed

lemma field_hit_entry:
  "field_hit L es = Some p \<Longrightarrow> \<exists>k. (k, Some p) \<in> set es \<and> ToLower k = L"
proof (induction es rule: rev_induct)
  case Nil
  then show ?case by (simp add: field_hit_def)
next
  case (snoc e es)
  obtain k v where e: "e = (k, v)" by (cases e)
  from snoc show ?case
    by (auto simp: e field_hit_snoc split: if_splits)
qed

lemma field_hit_none:
  assumes "\<And>k v. (k, v) \<in> set es \<Longrightarrow> ToLower k \<noteq> L"
  shows "field_hit L es = None"
proof -
  have "filter (\<lambda>kv. ToLower (fst kv) = L \<and> snd kv \<noteq> None) es = []"
    using assms by (fastforce simp: filter_empty_conv)
  then show ?thesis by (simp add: field_hit_def)
qed

subsection \<open>When the decoder fails\<close>

text \<open>
  C2, as the claim states it, fails: the input \<^verbatim>\<open>null\<close> is not a JSON object, and decoding
  it returns no error.
\<close>

theorem decode_null_returns:
  "decode (\<lambda>m. m) (JSON JNull) = Inr (zero\<lparr>MetaData := Some []\<rparr>)"
  by (simp add: decode_def UnmarshalJSON_def)

text \<open>
  C2, amended: decoding returns an error exactly when the input is not JSON (a syntax
  error) or its top-level value is neither an object nor \<^verbatim>\<open>null\<close> (a type error). Every
  object, and \<^verbatim>\<open>null\<close>, is decoded without error and without panic, whatever its members
  hold and in whatever order they are visited: what is amiss in a field never surfaces.
\<close>

theorem UnmarshalJSON_error_exactly:
  "(UnmarshalJSON order a b = Inl e \<longleftrightarrow>
      (b = NotJSON \<and> e = SyntaxError) \<or>
      ((\<exists>v. b = JSON v \<and> v \<noteq> JNull \<and> (\<forall>kvs. v \<noteq> JObject kvs)) \<and> e = UnmarshalTypeError)) \<and>
   (\<exists>a'. UnmarshalJSON order a (JSON (JObject kvs)) = Inr a') \<and>
   (\<exists>a'. UnmarshalJSON order a (JSON JNull) = Inr a')"
proof (intro conjI)
  show "UnmarshalJSON order a b = Inl e \<longleftrightarrow>
      (b = NotJSON \<and> e = SyntaxError) \<or>
      ((\<exists>v. b = JSON v \<and> v \<noteq> JNull \<and> (\<forall>kvs. v \<noteq> JObject kvs)) \<and> e = UnmarshalTypeError)"
  proof (cases b)
    case NotJSON
    then show ?thesis by (auto simp: UnmarshalJSON_fails_iff)
  next
    case (JSON v)
    then show ?thesis by (cases v) (auto simp: UnmarshalJSON_fails_iff)
  qed
  show "\<exists>a'. UnmarshalJSON order a (JSON (JObject kvs)) = Inr a'"
    by (simp add: UnmarshalJSON_returns_iff)
  show "\<exists>a'. UnmarshalJSON order a (JSON JNull) = Inr a'"
    by (simp add: UnmarshalJSON_returns_iff)
qed

text \<open>How a successful call ends: the loop has run over the entries, the map is stored.\<close>

lemma UnmarshalJSON_InrD:
  assumes "UnmarshalJSON order a b = Inr a'"
  obtains m a1 md where "Unmarshal_map b = (None, m)"
    and "range_loop (order m) (a, []) = Inr (a1, md)" and "a' = a1\<lparr>MetaData := Some md\<rparr>"
proof (cases "Unmarshal_map b")
  case (Pair err m)
  with assms have err: "err = None"
    by (cases err) (simp_all add: UnmarshalJSON_def)
  obtain a1 md where run: "range_loop (order m) (a, []) = Inr (a1, md)"
    using range_loop_returns [of "order m" "(a, [])"] by auto
  with assms Pair err have "a' = a1\<lparr>MetaData := Some md\<rparr>"
    by (simp add: UnmarshalJSON_def)
  with Pair err run that show ?thesis by blast
qed

lemma UnmarshalJSON_object_run:
  assumes "UnmarshalJSON order a (JSON (JObject kvs)) = Inr a'"
    and perm: "\<And>m. mset (order m) = mset m"
  shows "\<exists>m a1 md. Unmarshal_map (JSON (JObject kvs)) = (None, m) \<and>
    range_loop (order m) (a, []) = Inr (a1, md) \<and> a' = a1\<lparr>MetaData := Some md\<rparr> \<and>
    distinct (map fst (order m)) \<and> set (order m) = set m \<and>
    (\<forall>k. map_of (order m) k = map_option raw_member (map_of (rev kvs) k))"
proof -
  obtain m a1 md where m: "Unmarshal_map (JSON (JObject kvs)) = (None, m)"
    and run: "range_loop (order m) (a, []) = Inr (a1, md)" and a': "a' = a1\<lparr>MetaData := Some md\<rparr>"
    using assms(1) by (rule UnmarshalJSON_InrD)
  from m Unmarshal_map_object [of kvs] have d: "distinct (map fst m)"
    and l: "\<And>k. map_of m k = map_option raw_member (map_of (rev kvs) k)"
    by auto
  note v = visit_order [OF perm d]
  from m run a' v l show ?thesis by simp
qed

subsection \<open>The metadata map of the result\<close>

text \<open>
  C9: after every successful decoding the field \<open>MetaData\<close> holds a map (it is not
  \<^verbatim>\<open>nil\<close>); the empty object and any object all of whose keys are recognized give the empty
  map; and what \<open>MetaData\<close> held in the receiver before the call is replaced by the map that
  the loop has built. That map is fixed by the object alone, whatever the receiver held
  and in whatever order the keys are visited: it has one entry for a key, its keys are
  the names of the object that are not recognized and whose last member is not \<^verbatim>\<open>null\<close>,
  and such a key holds the decoded value of that member (stated for the members of which
  \<^const>\<open>generic\<close> is the value that Go decodes).
\<close>

theorem UnmarshalJSON_MetaData_fresh:
  assumes perm: "\<And>m. mset (order m) = mset m"
  shows "(UnmarshalJSON order a b = Inr a' \<longrightarrow> (\<exists>md. MetaData a' = Some md)) \<and>
    UnmarshalJSON order a (JSON (JObject [])) = Inr (a\<lparr>MetaData := Some []\<rparr>) \<and>
    ((\<forall>k v. (k, v) \<in> set kvs \<longrightarrow> ToLower k \<in> set recognized) \<longrightarrow>
       (\<exists>a''. UnmarshalJSON order a (JSON (JObject kvs)) = Inr a'' \<and> MetaData a'' = Some [])) \<and>
    (\<exists>a'' md. UnmarshalJSON order a (JSON (JObject ms)) = Inr a'' \<and> MetaData a'' = Some md \<and>
       distinct (map fst md) \<and>
       fst ` set md =
         {k. \<exists>v. map_of (rev ms) k = Some v \<and> v \<noteq> JNull \<and> ToLower k \<notin> set recognized} \<and>
       (\<forall>k v. map_of (rev ms) k = Some v \<and> v \<noteq> JNull \<and> ToLower k \<notin> set recognized \<and>
          exact_json v \<longrightarrow> map_of md k = Some (generic v))) \<and>
    UnmarshalJSON order (a\<lparr>MetaData := md0\<rparr>) b = UnmarshalJSON order a b"
proof (intro conjI impI)
  assume "UnmarshalJSON order a b = Inr a'"
  then show "\<exists>md. MetaData a' = Some md"
    by (rule UnmarshalJSON_InrD) simp
next
  have "order [] = []"
    using perm [of "[]"] by simp
  then show "UnmarshalJSON order a (JSON (JObject [])) = Inr (a\<lparr>MetaData := Some []\<rparr>)"
    by (simp add: UnmarshalJSON_def)
next
  assume rec: "\<forall>k v. (k, v) \<in> set kvs \<longrightarrow> ToLower k \<in> set recognized"
  obtain a'' where a'': "UnmarshalJSON order a (JSON (JObject kvs)) = Inr a''"
    using UnmarshalJSON_returns_iff [of order a "JSON (JObject kvs)"] by auto
  then obtain m a1 md where m: "Unmarshal_map (JSON (JObject kvs)) = (None, m)"
    and run: "range_loop (order m) (a, []) = Inr (a1, md)" and eq: "a'' = a1\<lparr>MetaData := Some md\<rparr>"
    and s: "set (order m) = set m"
    using UnmarshalJSON_object_run [OF _ perm] by blast
  have "fst ` set md = {}"
  proof -
    have "\<not> (\<exists>p. (k, Some p) \<in> set (order m) \<and> ToLower k \<notin> set recognized)" for k
    proof
      assume "\<exists>p. (k, Some p) \<in> set (order m) \<and> ToLower k \<notin> set recognized"
      then obtain p where p: "(k, Some p) \<in> set m" "ToLower k \<notin> set recognized"
        using s by auto
      then obtain v where "(k, v) \<in> set kvs"
        using Unmarshal_map_entry [OF m] by blast
      with rec p(2) show False by blast
    qed
    then show ?thesis
      using range_loop_metadata_keys [OF run] by simp
  qed
  then have "md = []" by simp
  with a'' eq show "\<exists>a''. UnmarshalJSON order a (JSON (JObject kvs)) = Inr a'' \<and>
      MetaData a'' = Some []"
    by simp
next
  obtain a'' where a'': "UnmarshalJSON order a (JSON (JObject ms)) = Inr a''"
    using UnmarshalJSON_returns_iff [of order a "JSON (JObject ms)"] by auto
  then obtain m a1 md where run: "range_loop (order m) (a, []) = Inr (a1, md)"
    and eq: "a'' = a1\<lparr>MetaData := Some md\<rparr>" and d: "distinct (map fst (order m))"
    and l: "\<forall>k. map_of (order m) k = map_option raw_member (map_of (rev ms) k)"
    using UnmarshalJSON_object_run [OF _ perm] by blast
  have member: "(\<exists>p. (k, Some p) \<in> set (order m)) \<longleftrightarrow>
      (\<exists>v. map_of (rev ms) k = Some v \<and> v \<noteq> JNull)" for k
  proof -
    have "(\<exists>p. (k, Some p) \<in> set (order m)) \<longleftrightarrow> (\<exists>p. map_of (order m) k = Some (Some p))"
      using d by simp
    also have "\<dots> \<longleftrightarrow> (\<exists>v. map_of (rev ms) k = Some v \<and> v \<noteq> JNull)"
      using l by (cases "map_of (rev ms) k") (simp_all add: raw_member_def)
    finally show ?thesis .
  qed
  have "distinct (map fst md)"
    using run by (rule range_loop_metadata_distinct) simp
  moreover have "fst ` set md =
      {k. \<exists>v. map_of (rev ms) k = Some v \<and> v \<noteq> JNull \<and> ToLower k \<notin> set recognized}"
    using range_loop_metadata_keys [OF run] member by auto
  moreover have "map_of md k = Some (generic v)"
    if "map_of (rev ms) k = Some v \<and> v \<noteq> JNull \<and> ToLower k \<notin> set recognized \<and> exact_json v"
    for k v
  proof -
    from that l have "map_of (order m) k = Some (Some (Payload (JSON v)))"
      by (simp add: raw_member_def)
    with that show ?thesis
      using range_loop_metadata_lookup [OF run d, of k] by simp
  qed
  ultimately show "\<exists>a'' md. UnmarshalJSON order a (JSON (JObject ms)) = Inr a'' \<and>
      MetaData a'' = Some md \<and> distinct (map fst md) \<and>
      fst ` set md =
        {k. \<exists>v. map_of (rev ms) k = Some v \<and> v \<noteq> JNull \<and> ToLower k \<notin> set recognized} \<and>
      (\<forall>k v. map_of (rev ms) k = Some v \<and> v \<noteq> JNull \<and> ToLower k \<notin> set recognized \<and>
         exact_json v \<longrightarrow> map_of md k = Some (generic v))"
    using a'' eq by (intro exI [of _ a''] exI [of _ md]) simp
next
  show "UnmarshalJSON order (a\<lparr>MetaData := md0\<rparr>) b = UnmarshalJSON order a b"
    by (simp add: UnmarshalJSON_def range_loop_ignores_MetaData
        split: prod.splits option.splits sum.splits)
qed

theorem UnmarshalJSON_MetaData_fresh_witness:
  "UnmarshalJSON (\<lambda>m. m) (zero\<lparr>MetaData := Some [(''old'', JBool True)]\<rparr>)
       (JSON (JObject [(''Actor'', JString ''A''), (''x'', JNumber ''2''), (''y'', JNull)])) =
     Inr (zero\<lparr>Actor := ''A'', MetaData := Some [(''x'', JNumber ''2'')]\<rparr>) \<and>
   (\<exists>a'' md. UnmarshalJSON (\<lambda>m. m) (zero\<lparr>MetaData := Some [(''old'', JBool True)]\<rparr>)
       (JSON (JObject [(''Actor'', JString ''A''), (''x'', JNumber ''2''), (''y'', JNull)])) =
       Inr a'' \<and>
     MetaData a'' = Some md \<and> fst ` set md = {''x''} \<and> map_of md ''x'' = Some (JNumber ''2'')) \<and>
   UnmarshalJSON (\<lambda>m. m) (zero\<lparr>MetaData := Some [(''old'', JBool True)]\<rparr>)
       (JSON (JObject [(''Actor'', JString ''A'')])) =
     Inr (zero\<lparr>Actor := ''A'', MetaData := Some []\<rparr>)"
proof -
  let ?a = "zero\<lparr>MetaData := Some [(''old'', JBool True)]\<rparr>"
  let ?ms = "[(''Actor'', JString ''A''), (''x'', JNumber ''2''), (''y'', JNull)]"
  have run: "UnmarshalJSON (\<lambda>m. m) ?a (JSON (JObject ?ms)) =
      Inr (zero\<lparr>Actor := ''A'', MetaData := Some [(''x'', JNumber ''2'')]\<rparr>)"
    by code_simp
  have run': "UnmarshalJSON (\<lambda>m. m) ?a (JSON (JObject [(''Actor'', JString ''A'')])) =
      Inr (zero\<lparr>Actor := ''A'', MetaData := Some []\<rparr>)"
    by code_simp
  have low: "ToLower ''Actor'' = ''actor''" "ToLower ''x'' = ''x''" "ToLower ''y'' = ''y''"
    by code_simp+
  then have keys: "\<forall>k v. (k, v) \<in> set [(''Actor'', JString ''A'')] \<longrightarrow> ToLower k \<in> set recognized"
    by (simp add: recognized_def)
  have number: "exact_json (JNumber ''2'')"
    by code_simp
  have names: "{k. \<exists>v. map_of (rev ?ms) k = Some v \<and> v \<noteq> JNull \<and> ToLower k \<notin> set recognized} =
      {''x''}"
    using low by (auto simp: recognized_def split: if_splits)
  have member: "map_of (rev ?ms) ''x'' = Some (JNumber ''2'') \<and> JNumber ''2'' \<noteq> JNull \<and>
      ToLower ''x'' \<notin> set recognized \<and> exact_json (JNumber ''2'')"
    using low number by (simp add: recognized_def)
  from UnmarshalJSON_MetaData_fresh [of "\<lambda>m. m" ?a "JSON (JObject ?ms)"
      "zero\<lparr>Actor := ''A'', MetaData := Some [(''x'', JNumber ''2'')]\<rparr>"
      "[(''Actor'', JString ''A'')]" ?ms "Some []"]
  obtain a'' md where r: "UnmarshalJSON (\<lambda>m. m) ?a (JSON (JObject ?ms)) = Inr a''"
    "MetaData a'' = Some md" "fst ` set md = {''x''}"
    "\<forall>k v. map_of (rev ?ms) k = Some v \<and> v \<noteq> JNull \<and> ToLower k \<notin> set recognized \<and>
       exact_json v \<longrightarrow> map_of md k = Some (generic v)"
    unfolding names by auto
  from r(4) member have "map_of md ''x'' = Some (generic (JNumber ''2''))"
    by blast
  with r(1-3) run run' show ?thesis
    by (intro conjI exI [of _ a''] exI [of _ md]) simp_all
qed

lemma raw_member_Some: "v \<noteq> JNull \<Longrightarrow> raw_member v = Some (Payload (JSON v))"
  by (simp add: raw_member_def)

text \<open>
  C3, as the claim states it, fails in its last part: a member whose key is not recognized
  and whose value is \<^verbatim>\<open>null\<close> is passed over and not stored in the metadata map.
\<close>

theorem null_member_not_stored:
  "decode (\<lambda>m. m) (JSON (JObject [(''Extra'', JNull)])) = Inr (zero\<lparr>MetaData := Some []\<rparr>)"
  by code_simp

text \<open>
  C3, amended: for every JSON object, after a successful decoding no key of the metadata map reads,
  in lower case, as one of the recognized names, and every key of the map is a key of the
  object as it was written. A member that is not \<^verbatim>\<open>null\<close> and whose key is not recognized
  is stored under that key, not under its lower-case form (the last member of a repeated
  name). A member \<^verbatim>\<open>"ACTOR"\<close> holding a string, when no other key reads \<^verbatim>\<open>actor\<close> in
  lower case, sets the field \<open>Actor\<close> and leaves no entry \<^verbatim>\<open>"ACTOR"\<close> in the map.
\<close>

theorem metadata_holds_unrecognized_keys:
  assumes perm: "\<And>m. mset (order m) = mset m"
    and dec: "UnmarshalJSON order a (JSON (JObject kvs)) = Inr a'"
  shows "\<exists>md. MetaData a' = Some md \<and>
    (\<forall>k. k \<in> fst ` set md \<longrightarrow> ToLower k \<notin> set recognized \<and> k \<in> fst ` set kvs) \<and>
    (\<forall>k v. map_of (rev kvs) k = Some v \<and> v \<noteq> JNull \<and> ToLower k \<notin> set recognized \<longrightarrow>
       map_of md k = Some (generic v)) \<and>
    ((\<forall>k v. (k, v) \<in> set kvs \<and> ToLower k = ''actor'' \<longrightarrow> k = ''ACTOR'') \<and>
     map_of (rev kvs) ''ACTOR'' = Some (JString s) \<longrightarrow>
       Actor a' = s \<and> map_of md ''ACTOR'' = None)"
proof -
  obtain m a1 md where m: "Unmarshal_map (JSON (JObject kvs)) = (None, m)"
    and run: "range_loop (order m) (a, []) = Inr (a1, md)" and a': "a' = a1\<lparr>MetaData := Some md\<rparr>"
    and d: "distinct (map fst (order m))" and s: "set (order m) = set m"
    and l: "\<forall>k. map_of (order m) k = map_option raw_member (map_of (rev kvs) k)"
    using UnmarshalJSON_object_run [OF dec perm] by blast
  have keys: "ToLower k \<notin> set recognized \<and> k \<in> fst ` set kvs" if "k \<in> fst ` set md" for k
  proof -
    from that obtain p where p: "(k, Some p) \<in> set (order m)" "ToLower k \<notin> set recognized"
      using range_loop_metadata_keys [OF run] by auto
    then obtain v where "(k, v) \<in> set kvs"
      using Unmarshal_map_entry [OF m, of k p] s by auto
    with p(2) show ?thesis by force
  qed
  have stored: "map_of md k = Some (generic v)"
    if "map_of (rev kvs) k = Some v \<and> v \<noteq> JNull \<and> ToLower k \<notin> set recognized" for k v
  proof -
    from that l have "map_of (order m) k = Some (Some (Payload (JSON v)))"
      by (simp add: raw_member_Some)
    with that show ?thesis
      using range_loop_metadata_lookup [OF run d, of k] by simp
  qed
  have actor: "Actor a' = s \<and> map_of md ''ACTOR'' = None"
    if h: "(\<forall>k v. (k, v) \<in> set kvs \<and> ToLower k = ''actor'' \<longrightarrow> k = ''ACTOR'') \<and>
      map_of (rev kvs) ''ACTOR'' = Some (JString s)"
  proof -
    have low: "ToLower ''ACTOR'' = ''actor''"
      by code_simp
    have only: "k = ''ACTOR''" if "(k, v) \<in> set (order m)" "ToLower k = ''actor''" for k v
    proof -
      from that(1) s have "k \<in> fst ` set m" by force
      with m Unmarshal_map_object [of kvs] have "k \<in> fst ` set kvs" by auto
      with h that(2) show ?thesis by auto
    qed
    have "map_of (order m) ''ACTOR'' = Some (Some (Payload (JSON (JString s))))"
      using h l by (simp add: raw_member_Some)
    then have hit: "field_hit ''actor'' (order m) = Some (Payload (JSON (JString s)))"
      using field_hit_only_key [OF d low only] by simp
    have "Actor a1 = (case field_hit ''actor'' (order m) of None \<Rightarrow> Actor a | Some p \<Rightarrow> String p)"
      using switch_key_projections(2) run by (rule range_loop_field)
    with hit a' have "Actor a' = s"
      by (simp add: String_def)
    moreover have "''ACTOR'' \<notin> fst ` set md"
      using keys [of "''ACTOR''"] low by (auto simp: recognized_def)
    then have "map_of md ''ACTOR'' = None"
      by (simp add: map_of_eq_None_iff)
    ultimately show ?thesis by simp
  qed
  from a' keys stored actor show ?thesis by simp
qed

theorem metadata_holds_unrecognized_keys_witness:
  "\<exists>md. UnmarshalJSON (\<lambda>m. m) zero
       (JSON (JObject [(''ACTOR'', JString ''A''), (''Extra_Field'', JNumber ''42'')])) =
     Inr (zero\<lparr>Actor := ''A'', MetaData := Some md\<rparr>) \<and>
     map_of md ''Extra_Field'' = Some (JNumber ''42'') \<and> map_of md ''ACTOR'' = None \<and>
     map_of md ''extra_field'' = None"
proof -
  let ?kvs = "[(''ACTOR'', JString ''A''), (''Extra_Field'', JNumber ''42'')]"
  let ?a' = "zero\<lparr>Actor := ''A'', MetaData := Some [(''Extra_Field'', JNumber ''42'')]\<rparr>"
  have dec: "UnmarshalJSON (\<lambda>m. m) zero (JSON (JObject ?kvs)) = Inr ?a'"
    by code_simp
  have low: "ToLower ''ACTOR'' = ''actor''" "ToLower ''Extra_Field'' = ''extra_field''"
    by code_simp+
  have h1: "\<forall>k v. (k, v) \<in> set ?kvs \<and> ToLower k = ''actor'' \<longrightarrow> k = ''ACTOR''"
    using low by auto
  have h2: "map_of (rev ?kvs) ''ACTOR'' = Some (JString ''A'')"
    by simp
  have h3: "map_of (rev ?kvs) ''Extra_Field'' = Some (JNumber ''42'') \<and> JNumber ''42'' \<noteq> JNull \<and>
      ToLower ''Extra_Field'' \<notin> set recognized"
    using low by (simp add: recognized_def)
  from metadata_holds_unrecognized_keys [of "\<lambda>m. m" zero ?kvs ?a' "''A''", OF _ dec]
  obtain md where md: "MetaData ?a' = Some md"
    "\<forall>k. k \<in> fst ` set md \<longrightarrow> ToLower k \<notin> set recognized \<and> k \<in> fst ` set ?kvs"
    "\<forall>k v. map_of (rev ?kvs) k = Some v \<and> v \<noteq> JNull \<and> ToLower k \<notin> set recognized \<longrightarrow>
       map_of md k = Some (generic v)"
    "(\<forall>k v. (k, v) \<in> set ?kvs \<and> ToLower k = ''actor'' \<longrightarrow> k = ''ACTOR'') \<and>
     map_of (rev ?kvs) ''ACTOR'' = Some (JString ''A'') \<longrightarrow>
       Actor ?a' = ''A'' \<and> map_of md ''ACTOR'' = None"
    by auto
  from md(3) h3 have "map_of md ''Extra_Field'' = Some (JNumber ''42'')"
    by fastforce
  moreover from md(4) h1 h2 have "map_of md ''ACTOR'' = None"
    by blast
  moreover from md(2) have "''extra_field'' \<notin> fst ` set md"
    by auto
  then have "map_of md ''extra_field'' = None"
    by (simp add: map_of_eq_None_iff)
  moreover from md(1) dec have "UnmarshalJSON (\<lambda>m. m) zero (JSON (JObject ?kvs)) =
      Inr (zero\<lparr>Actor := ''A'', MetaData := Some md\<rparr>)"
    by simp
  ultimately show ?thesis by blast
qed

subsection \<open>Time stamps and lists of feeds in the input\<close>

text \<open>
  C8: when every member of the object whose key reads \<^verbatim>\<open>time\<close> in lower case holds a value
  that is not a JSON string, or a string that \<^verbatim>\<open>time.Parse\<close> rejects under the layout, the
  decoding succeeds and the time stamp is left unset (the receiver being one without time
  stamp, as a fresh Activity is). No error surfaces.
\<close>

theorem unparsed_time_leaves_TimeStamp_unset:
  assumes perm: "\<And>m. mset (order m) = mset m"
    and bad: "\<And>k v. (k, v) \<in> set kvs \<Longrightarrow> ToLower k = ''time'' \<Longrightarrow>
       (\<forall>s. v \<noteq> JString s) \<or> (\<exists>s e. v = JString s \<and> Parse s = Inl e)"
    and unset: "TimeStamp a = None"
  shows "\<exists>a'. UnmarshalJSON order a (JSON (JObject kvs)) = Inr a' \<and> TimeStamp a' = None"
proof -
  obtain a' where dec: "UnmarshalJSON order a (JSON (JObject kvs)) = Inr a'"
    using UnmarshalJSON_returns_iff [of order a "JSON (JObject kvs)"] by auto
  obtain m a1 md where m: "Unmarshal_map (JSON (JObject kvs)) = (None, m)"
    and run: "range_loop (order m) (a, []) = Inr (a1, md)" and a': "a' = a1\<lparr>MetaData := Some md\<rparr>"
    and s: "set (order m) = set m"
    using UnmarshalJSON_object_run [OF dec perm] by blast
  have ts: "TimeStamp a1 =
      (case field_hit ''time'' (order m) of None \<Rightarrow> TimeStamp a | Some p \<Rightarrow> TimeStamp_of p)"
    using switch_key_projections(8) run by (rule range_loop_field)
  have "TimeStamp a1 = None"
  proof (cases "field_hit ''time'' (order m)")
    case None
    with ts unset show ?thesis by simp
  next
    case (Some p)
    then obtain k where k: "(k, Some p) \<in> set m" "ToLower k = ''time''"
      using field_hit_entry s by blast
    then obtain v where v: "(k, v) \<in> set kvs" "p = Payload (JSON v)" and nn: "v \<noteq> JNull"
      using Unmarshal_map_entry [OF m] by blast
    from bad [OF v(1) k(2)] have "TimeStamp_of (Payload (JSON v)) = None"
    proof
      assume "\<forall>s. v \<noteq> JString s"
      with nn show ?thesis
        by (cases v) (simp_all add: TimeStamp_of_def)
    next
      assume "\<exists>s e. v = JString s \<and> Parse s = Inl e"
      then show ?thesis
        by (auto simp: TimeStamp_of_def)
    qed
    with ts Some v(2) show ?thesis by simp
  qed
  with dec a' show ?thesis by simp
qed

theorem unparsed_time_leaves_TimeStamp_unset_witness:
  "Parse ''not-a-date'' = Inl ParseError \<and>
   decode (\<lambda>m. m) (JSON (JObject [(''time'', JString ''not-a-date'')])) =
     Inr (zero\<lparr>MetaData := Some []\<rparr>) \<and>
   TimeStamp (zero\<lparr>MetaData := Some []\<rparr>) = None"
proof -
  let ?kvs = "[(''time'', JString ''not-a-date'')]"
  have p: "Parse ''not-a-date'' = Inl ParseError"
    by code_simp
  then have bad: "\<And>k v. (k, v) \<in> set ?kvs \<Longrightarrow> ToLower k = ''time'' \<Longrightarrow>
       (\<forall>s. v \<noteq> JString s) \<or> (\<exists>s e. v = JString s \<and> Parse s = Inl e)"
    by simp
  have z: "TimeStamp zero = None"
    by (simp add: zero_def)
  have run: "decode (\<lambda>m. m) (JSON (JObject ?kvs)) = Inr (zero\<lparr>MetaData := Some []\<rparr>)"
    by code_simp
  from unparsed_time_leaves_TimeStamp_unset [of "\<lambda>m. m" ?kvs zero, OF _ bad z] run p
  show ?thesis by (auto simp: decode_def)
qed

text \<open>A map with one entry is visited in one way.\<close>

lemma visit_single:
  assumes "\<And>m. mset (order m) = mset m"
  shows "order [e] = [e]"
  using assms [of "[e]"] by (simp add: mset_single_iff_right)

text \<open>
  C6, as the claim states it, fails: the inner list \<^verbatim>\<open>["user","1"]\<close> is joined with a space
  to \<^verbatim>\<open>"user 1"\<close>, which matches neither pattern, and no reference comes out.
\<close>

theorem decode_pair_of_slug_and_id:
  "decode (\<lambda>m. m)
     (JSON (JObject [(''to'', JArray [JArray [JString ''user'', JString ''1''],
        JArray [JString ''user'']])])) =
   Inr (zero\<lparr>MetaData := Some [], To := []\<rparr>)"
  by code_simp

text \<open>
  C6, amended: decoding \<^verbatim>\<open>{"to": [["user","1"], ["user"]]}\<close> yields no reference: an inner
  list of two elements is joined with a single space, here to \<^verbatim>\<open>"user 1"\<close>, and neither that
  nor \<^verbatim>\<open>"user"\<close> is a feed string. An inner list of a feed and its token, as in
  \<^verbatim>\<open>{"to": [["user:1","tok"]]}\<close>, is joined to \<^verbatim>\<open>"user:1 tok"\<close> and yields the one reference
  with slug \<^verbatim>\<open>user\<close>, user id \<^verbatim>\<open>1\<close> and token \<^verbatim>\<open>tok\<close>.
\<close>

theorem decode_to_of_lists:
  assumes perm: "\<And>m. mset (order m) = mset m"
  shows "decode order
       (JSON (JObject [(''to'', JArray [JArray [JString ''user'', JString ''1''],
          JArray [JString ''user'']])])) =
     Inr (zero\<lparr>MetaData := Some [], To := []\<rparr>) \<and>
   decode order (JSON (JObject [(''to'', JArray [JArray [JString ''user:1'', JString ''tok'']])])) =
     Inr (zero\<lparr>MetaData := Some [],
       To := [\<lparr>FeedSlug = ''user'', UserID = ''1'', token = ''tok''\<rparr>]\<rparr>)"
proof -
  have id: "decode order (JSON (JObject [(k, v)])) = decode (\<lambda>m. m) (JSON (JObject [(k, v)]))"
    for k v
    by (simp add: decode_def UnmarshalJSON_def visit_single [OF perm])
  have 1: "decode (\<lambda>m. m)
       (JSON (JObject [(''to'', JArray [JArray [JString ''user'', JString ''1''],
          JArray [JString ''user'']])])) =
     Inr (zero\<lparr>MetaData := Some [], To := []\<rparr>)"
    by code_simp
  have 2: "decode (\<lambda>m. m)
       (JSON (JObject [(''to'', JArray [JArray [JString ''user:1'', JString ''tok'']])])) =
     Inr (zero\<lparr>MetaData := Some [],
       To := [\<lparr>FeedSlug = ''user'', UserID = ''1'', token = ''tok''\<rparr>]\<rparr>)"
    by code_simp
  from 1 2 show ?thesis by (simp only: id)
qed

theorem decode_to_of_lists_witness:
  "decode (\<lambda>m. m) (JSON (JObject [(''to'', JArray [JArray [JString ''user:1'', JString ''tok'']])])) =
     Inr (zero\<lparr>MetaData := Some [],
       To := [\<lparr>FeedSlug = ''user'', UserID = ''1'', token = ''tok''\<rparr>]\<rparr>)"
  using decode_to_of_lists [of "\<lambda>m. m"] by simp

subsection \<open>What the encoder writes\<close>

lemma rune_size_ascii: "in_range 0x00 0x7F c \<Longrightarrow> rune_size (c # s) = 1"
  by (simp add: rune_size_def)

lemma valid_utf8_ascii: "ascii s \<Longrightarrow> valid_utf8 s = s"
  by (induction s) (simp_all add: ascii_def rune_size_ascii)

lemma not_ascii_replacement: "\<not> in_range 0x00 0x7F (CHR 0xEF)"
  by (simp add: in_range_def)

lemma ascii_valid_utf8D: "ascii (valid_utf8 k) \<Longrightarrow> valid_utf8 k = k"
proof (induction k rule: valid_utf8.induct)
  case 1
  show ?case by simp
next
  case (2 c s)
  show ?case
  proof (cases "rune_size (c # s) = 0")
    case True
    with "2.prems" show ?thesis
      by (simp add: ascii_def not_ascii_replacement)
  next
    case False
    then obtain n where n: "rune_size (c # s) = Suc n" by (cases "rune_size (c # s)") auto
    with "2.prems" have c: "in_range 0x00 0x7F c"
      by (simp add: ascii_def)
    then have one: "rune_size (c # s) = 1" by (rule rune_size_ascii)
    with "2.prems" have "ascii (valid_utf8 s)"
      by (simp add: ascii_def)
    with "2.IH"(2) [of "rune_size (c # s)"] one have "valid_utf8 s = s"
      by simp
    with one show ?thesis by simp
  qed
qed

lemma valid_utf8_eq_ascii_iff: "ascii K \<Longrightarrow> valid_utf8 k = K \<longleftrightarrow> k = K"
  using ascii_valid_utf8D valid_utf8_ascii by metis

text \<open>The members that \<^verbatim>\<open>json.Marshal\<close> writes, read at a key of ASCII.\<close>

lemma marshal_members_lookup:
  assumes "marshal_members kvs = Inr js" and "ascii K"
  shows "map_of js K =
     (case map_of kvs K of None \<Rightarrow> None
      | Some v \<Rightarrow> (case marshal_value v of Inl e \<Rightarrow> None | Inr j \<Rightarrow> Some j))"
  using assms(1)
proof (induction kvs arbitrary: js)
  case Nil
  then show ?case by simp
next
  case (Cons kv kvs)
  obtain k v where kv: "kv = (k, v)" by (cases kv)
  from Cons.prems kv obtain j js' where j: "marshal_value v = Inr j"
    and js': "marshal_members kvs = Inr js'" and js: "js = (valid_utf8 k, j) # js'"
    by (auto split: sum.splits)
  have key: "valid_utf8 k = K \<longleftrightarrow> k = K"
    using assms(2) by (rule valid_utf8_eq_ascii_iff)
  show ?case
  proof (cases "k = K")
    case True
    with key j show ?thesis by (simp add: kv js)
  next
    case False
    with key have "valid_utf8 k \<noteq> K" by simp
    with False Cons.IH [OF js'] show ?thesis by (simp add: kv js)
  qed
qed

lemma sort_key_lookup:
  assumes "distinct (map fst kvs)"
  shows "map_of (sort_key fst kvs) = map_of kvs"
  using visit_order(3) [of "sort_key fst kvs" kvs] assms by simp

lemma Marshal_lookup:
  assumes "Marshal payload = Inr j" and "distinct (map fst payload)" and "ascii K"
  shows "\<exists>members. j = JObject members \<and>
     map_of members K =
       (case map_of payload K of None \<Rightarrow> None
        | Some v \<Rightarrow> (case marshal_value v of Inl e \<Rightarrow> None | Inr j \<Rightarrow> Some j))"
proof -
  from assms(1) obtain members where m: "marshal_members (sort_key fst payload) = Inr members"
    and j: "j = JObject members"
    by (auto simp: Marshal_def split: sum.splits)
  from marshal_members_lookup [OF m assms(3)] j show ?thesis
    by (simp add: sort_key_lookup [OF assms(2)])
qed

lemma tos_loop_eq: "tos_loop fs tos = tos @ map render fs"
  by (induction fs arbitrary: tos) (simp_all add: render_def Let_def)

lemma metadata_copy:
  "distinct (map fst (fold (\<lambda>kv m. AList.update (fst kv) (GoGeneric (snd kv)) m) md []))"
  "map_of (fold (\<lambda>kv m. AList.update (fst kv) (GoGeneric (snd kv)) m) md []) k =
     map_option GoGeneric (map_of (rev md) k)"
  by (simp_all add: fold_update_distinct fold_update_lookup split: option.splits)

lemma MarshalJSON_payload:
  "\<exists>P. MarshalJSON now a = Marshal P \<and> distinct (map fst P) \<and> map_of P = payload_map now a"
proof -
  define p0 where "p0 = (case MetaData a of None \<Rightarrow> []
    | Some md \<Rightarrow> fold (\<lambda>kv m. AList.update (fst kv) (GoGeneric (snd kv)) m) md [])"
  define p4 where "p4 = AList.update ''origin'' (GoString (Value (Origin a)))
    (AList.update ''object'' (GoString (Object a))
      (AList.update ''verb'' (GoString (Verb a))
        (AList.update ''actor'' (GoString (Actor a)) p0)))"
  define p5 where "p5 = (if ID a \<noteq> [] then AList.update ''id'' (GoString (ID a)) p4 else p4)"
  define p6 where "p6 = (if Target a \<noteq> [] then AList.update ''target'' (GoString (Target a)) p5 else p5)"
  define p7 where "p7 = (case Data a of None \<Rightarrow> p6
    | Some raw \<Rightarrow> AList.update ''data'' (GoRawMessage raw) p6)"
  define p8 where "p8 = (if ForeignID a \<noteq> [] then AList.update ''foreign_id'' (GoString (ForeignID a)) p7
    else p7)"
  define p9 where "p9 = (case TimeStamp a of
      None \<Rightarrow> AList.update ''time'' (GoString (Format now)) p8
    | Some t \<Rightarrow> AList.update ''time'' (GoString (Format t)) p8)"
  define P where "P = (if length (tos_loop (To a) []) > 0
     then AList.update ''to'' (GoStrings (tos_loop (To a) [])) p9 else p9)"
  have run: "MarshalJSON now a = Marshal P"
    unfolding MarshalJSON_def P_def p9_def p8_def p7_def p6_def p5_def p4_def p0_def Let_def
    by (rule refl)
  have d0: "distinct (map fst p0)"
    by (simp add: p0_def metadata_copy split: option.splits)
  have l0: "map_of p0 k = (case MetaData a of None \<Rightarrow> None
      | Some md \<Rightarrow> map_option GoGeneric (map_of (rev md) k))" for k
    by (simp add: p0_def metadata_copy split: option.splits)
  have d4: "distinct (map fst p4)"
    using d0 by (simp add: p4_def distinct_update)
  have d5: "distinct (map fst p5)"
    using d4 by (simp add: p5_def distinct_update)
  have d6: "distinct (map fst p6)"
    using d5 by (simp add: p6_def distinct_update)
  have d7: "distinct (map fst p7)"
    using d6 by (simp add: p7_def distinct_update split: option.splits)
  have d8: "distinct (map fst p8)"
    using d7 by (simp add: p8_def distinct_update)
  have d9: "distinct (map fst p9)"
    using d8 by (simp add: p9_def distinct_update split: option.splits)
  have dP: "distinct (map fst P)"
    using d9 by (simp add: P_def distinct_update)
  have l4: "map_of p4 k =
      (if k = ''origin'' then Some (GoString (Value (Origin a)))
       else if k = ''object'' then Some (GoString (Object a))
       else if k = ''verb'' then Some (GoString (Verb a))
       else if k = ''actor'' then Some (GoString (Actor a))
       else map_of p0 k)" for k
    by (simp add: p4_def update_conv')
  have l5: "map_of p5 k = (if k = ''id'' \<and> ID a \<noteq> [] then Some (GoString (ID a)) else map_of p4 k)"
    for k
    by (simp add: p5_def update_conv')
  have l6: "map_of p6 k =
      (if k = ''target'' \<and> Target a \<noteq> [] then Some (GoString (Target a)) else map_of p5 k)" for k
    by (simp add: p6_def update_conv')
  have l7: "map_of p7 k =
      (if k = ''data'' \<and> Data a \<noteq> None then map_option GoRawMessage (Data a) else map_of p6 k)"
    for k
    by (simp add: p7_def update_conv' split: option.splits)
  have l8: "map_of p8 k =
      (if k = ''foreign_id'' \<and> ForeignID a \<noteq> [] then Some (GoString (ForeignID a))
       else map_of p7 k)" for k
    by (simp add: p8_def update_conv')
  have l9: "map_of p9 k =
      (if k = ''time'' then
         Some (GoString (Format (case TimeStamp a of None \<Rightarrow> now | Some t \<Rightarrow> t)))
       else map_of p8 k)" for k
    by (simp add: p9_def update_conv' split: option.splits)
  have lP: "map_of P k =
      (if k = ''to'' \<and> To a \<noteq> [] then Some (GoStrings (map render (To a))) else map_of p9 k)"
    for k
    by (simp add: P_def update_conv' tos_loop_eq)
  have "map_of P k = payload_map now a k" for k
    unfolding lP l9 l8 l7 l6 l5 l4 l0 payload_map_def by (rule refl)
  then have "map_of P = payload_map now a" by (rule ext)
  with run dP show ?thesis by blast
qed

lemma ascii_names:
  "ascii ''id''" "ascii ''target''" "ascii ''foreign_id''" "ascii ''actor''" "ascii ''verb''"
  "ascii ''object''" "ascii ''origin''" "ascii ''time''" "ascii ''data''" "ascii ''to''"
  by (simp_all add: ascii_def in_range_def)

lemma metadata_keys_lookup:
  "k \<notin> metadata_keys a \<Longrightarrow>
     (case MetaData a of None \<Rightarrow> None | Some md \<Rightarrow> map_option GoGeneric (map_of (rev md) k)) = None"
  by (auto simp: metadata_keys_def map_of_eq_None_iff split: option.splits)

text \<open>
  C7, as the claim states it, fails: an Activity whose \<open>ID\<close> is empty and whose metadata
  map has an entry \<^verbatim>\<open>id\<close> is written with the key \<^verbatim>\<open>id\<close>, here with the value \<^verbatim>\<open>null\<close>.
\<close>

theorem MarshalJSON_id_from_metadata:
  "ID (zero\<lparr>MetaData := Some [(''id'', JNull)]\<rparr>) = [] \<and>
   MarshalJSON \<lparr>Year = 2020, Month = 1, Day = 2, Hour = 3, Minute = 4, Second = 5,
       Nanosecond = 0, Loc = UTC\<rparr> (zero\<lparr>MetaData := Some [(''id'', JNull)]\<rparr>) =
     Inr (JObject [(''actor'', JString []), (''id'', JNull), (''object'', JString []),
       (''origin'', JString []), (''time'', JString ''2020-01-02T03:04:05''),
       (''verb'', JString [])])"
  by code_simp

text \<open>
  C7, amended: in the object that the encoder writes, a field \<open>ID\<close>, \<open>Target\<close> or
  \<open>ForeignID\<close> that is not empty is always there under \<^verbatim>\<open>id\<close>, \<^verbatim>\<open>target\<close> or
  \<^verbatim>\<open>foreign_id\<close>, as a string; when the field is empty the key is left out (not written
  as \<^verbatim>\<open>null\<close>), provided the metadata map has no entry of that very key.
\<close>

theorem MarshalJSON_optional_keys:
  assumes enc: "MarshalJSON now a = Inr j"
  shows "\<exists>members. j = JObject members \<and>
    (ID a \<noteq> [] \<longrightarrow> map_of members ''id'' = Some (JString (valid_utf8 (ID a)))) \<and>
    (ID a = [] \<and> ''id'' \<notin> metadata_keys a \<longrightarrow> ''id'' \<notin> fst ` set members) \<and>
    (Target a \<noteq> [] \<longrightarrow> map_of members ''target'' = Some (JString (valid_utf8 (Target a)))) \<and>
    (Target a = [] \<and> ''target'' \<notin> metadata_keys a \<longrightarrow> ''target'' \<notin> fst ` set members) \<and>
    (ForeignID a \<noteq> [] \<longrightarrow>
       map_of members ''foreign_id'' = Some (JString (valid_utf8 (ForeignID a)))) \<and>
    (ForeignID a = [] \<and> ''foreign_id'' \<notin> metadata_keys a \<longrightarrow>
       ''foreign_id'' \<notin> fst ` set members)"
proof -
  obtain P where P: "MarshalJSON now a = Marshal P" "distinct (map fst P)"
    "map_of P = payload_map now a"
    using MarshalJSON_payload by blast
  from enc P(1) have mp: "Marshal P = Inr j" by simp
  then obtain members where j: "j = JObject members"
    by (auto simp: Marshal_def split: sum.splits)
  have look: "map_of members K =
       (case payload_map now a K of None \<Rightarrow> None
        | Some v \<Rightarrow> (case marshal_value v of Inl e \<Rightarrow> None | Inr j \<Rightarrow> Some j))"
    if "ascii K" for K
    using Marshal_lookup [OF mp P(2) that] j by (auto simp: P(3))
  have id1: "map_of members ''id'' = Some (JString (valid_utf8 (ID a)))" if "ID a \<noteq> []"
    using that by (simp add: look ascii_names payload_map_def)
  have id2: "''id'' \<notin> fst ` set members" if "ID a = [] \<and> ''id'' \<notin> metadata_keys a"
  proof -
    from that have "map_of members ''id'' = None"
      by (simp add: look ascii_names payload_map_def metadata_keys_lookup)
    then show ?thesis by (simp add: map_of_eq_None_iff)
  qed
  have target1: "map_of members ''target'' = Some (JString (valid_utf8 (Target a)))"
    if "Target a \<noteq> []"
    using that by (simp add: look ascii_names payload_map_def)
  have target2: "''target'' \<notin> fst ` set members"
    if "Target a = [] \<and> ''target'' \<notin> metadata_keys a"
  proof -
    from that have "map_of members ''target'' = None"
      by (simp add: look ascii_names payload_map_def metadata_keys_lookup)
    then show ?thesis by (simp add: map_of_eq_None_iff)
  qed
  have foreign1: "map_of members ''foreign_id'' = Some (JString (valid_utf8 (ForeignID a)))"
    if "ForeignID a \<noteq> []"
    using that by (simp add: look ascii_names payload_map_def)
  have foreign2: "''foreign_id'' \<notin> fst ` set members"
    if "ForeignID a = [] \<and> ''foreign_id'' \<notin> metadata_keys a"
  proof -
    from that have "map_of members ''foreign_id'' = None"
      by (simp add: look ascii_names payload_map_def metadata_keys_lookup)
    then show ?thesis by (simp add: map_of_eq_None_iff)
  qed
  from j id1 id2 target1 target2 foreign1 foreign2 show ?thesis by blast
qed

theorem MarshalJSON_optional_keys_witness:
  "\<exists>members.
     MarshalJSON \<lparr>Year = 2020, Month = 1, Day = 2, Hour = 3, Minute = 4, Second = 5,
       Nanosecond = 0, Loc = UTC\<rparr> (zero\<lparr>ID := ''7''\<rparr>) = Inr (JObject members) \<and>
     map_of members ''id'' = Some (JString ''7'') \<and> ''target'' \<notin> fst ` set members \<and>
     ''foreign_id'' \<notin> fst ` set members"
proof -
  let ?now = "\<lparr>Year = 2020, Month = 1, Day = 2, Hour = 3, Minute = 4, Second = 5,
       Nanosecond = 0, Loc = UTC\<rparr>"
  let ?a = "zero\<lparr>ID := ''7''\<rparr>"
  have enc: "MarshalJSON ?now ?a =
      Inr (JObject [(''actor'', JString []), (''id'', JString ''7''), (''object'', JString []),
        (''origin'', JString []), (''time'', JString ''2020-01-02T03:04:05''),
        (''verb'', JString [])])"
    by code_simp
  have h: "ID ?a \<noteq> []" "Target ?a = [] \<and> ''target'' \<notin> metadata_keys ?a"
    "ForeignID ?a = [] \<and> ''foreign_id'' \<notin> metadata_keys ?a"
    by (simp_all add: zero_def metadata_keys_def)
  have v: "valid_utf8 (ID ?a) = ''7''"
    by code_simp
  from MarshalJSON_optional_keys [OF enc] h v show ?thesis
    by (simp only: enc) auto
qed

subsection \<open>Encoding, then decoding\<close>

lemma ascii_append [simp]: "ascii (s @ t) \<longleftrightarrow> ascii s \<and> ascii t"
  by (simp add: ascii_def)

lemma ascii_Cons [simp]: "ascii (c # s) \<longleftrightarrow> in_range 0x00 0x7F c \<and> ascii s"
  by (simp add: ascii_def)

lemma ascii_Nil [simp]: "ascii []"
  by (simp add: ascii_def)

























lemma length_fixed [simp]: "length (fixed w n) = w"
  by (induction w arbitrary: n) simp_all






































end
